theory Spec2Isabelle
  imports Complex_Main
begin

section \<open>Beta-splitting network generator: shallow embedding\<close>

text \<open>
  The program builds a random binary tree (\<open>simulateBetaSplitting\<close>) and then inserts
  reticulation edges (\<open>GenerateNetwork\<close>, \<open>AddEdgeBetween\<close>, \<open>AddEdgeUniform\<close>,
  \<open>AddEdgeLocal\<close>). Python integers are \<open>int\<close>; a Python float is the real number it denotes, and
  the float operations of \<open>AddEdgeBetween\<close> round as IEEE binary64 does;
  every exception is a value of \<open>error\<close>; the process-wide random source is an explicit
  argument that each draw consumes.
\<close>

subsection \<open>Exceptions\<close>

datatype error =
  KeyError | ValueError | IndexError | TypeError | UnboundLocalError | NodeNotFound
  | NetworkXError

definition ebind :: "error + 'a \<Rightarrow> ('a \<Rightarrow> error + 'b) \<Rightarrow> error + 'b" where
  "ebind m f = (case m of Inl e \<Rightarrow> Inl e | Inr x \<Rightarrow> f x)"

subsection \<open>The random source\<close>

text \<open>
  Two streams stand for the generators of \<open>random\<close> and \<open>numpy.random\<close>: \<open>picks\<close> feeds
  every draw of an index, \<open>floats\<close> the 53 random bits of every call of
  \<open>random.random()\<close>. A draw reads the head of its stream and drops it. Every outcome the library can produce is produced by some
  stream, so a statement for all streams is a statement for all runs.
\<close>

record rng =
  picks :: "nat \<Rightarrow> nat"
  floats :: "nat \<Rightarrow> nat"

definition next_pick :: "rng \<Rightarrow> rng" where
  "next_pick r = r\<lparr>picks := (\<lambda>i. picks r (Suc i))\<rparr>"

definition next_float :: "rng \<Rightarrow> rng" where
  "next_float r = r\<lparr>floats := (\<lambda>i. floats r (Suc i))\<rparr>"

text \<open>\<open>random.random()\<close>: the float \<open>k / 2 ^ 53\<close> for a random \<open>k\<close> below \<open>2 ^ 53\<close>.\<close>

definition random_random :: "rng \<Rightarrow> real \<times> rng" where
  "random_random r = (real (floats r 0 mod 2 ^ 53) / 2 ^ 53, next_float r)"

subsection \<open>Float arithmetic\<close>

text \<open>
  A Python float is an IEEE binary64 number: an integer of at most 53 bits times a power of
  two, the exponent of the unit in the last place between -1074 and 971. The result of a
  float operation is the exact result rounded to the nearest such number, to the one with
  an even last bit when two are equally near. \<open>exponent_upto k x\<close> is the largest exponent
  \<open>e\<close> from -1022 to \<open>k - 1022\<close> with \<open>2 powi e \<le> x\<close>, and -1022 when there is none
  (the subnormal range). Overflow to infinity is not modelled: the two operations of
  \<open>AddEdgeBetween\<close> on a finite length cannot overflow, their results being no larger in
  magnitude than the length.
\<close>

definition round_half_even :: "real \<Rightarrow> int" where
  "round_half_even x =
     (let f = \<lfloor>x\<rfloor>; d = x - of_int f
      in if d < 1 / 2 then f else if 1 / 2 < d then f + 1 else if even f then f else f + 1)"

primrec exponent_upto :: "nat \<Rightarrow> real \<Rightarrow> int" where
  "exponent_upto 0 x = - 1022"
| "exponent_upto (Suc k) x =
     (if 2 powi (int (Suc k) - 1022) \<le> x then int (Suc k) - 1022 else exponent_upto k x)"

definition double_exponent :: "real \<Rightarrow> int" where
  "double_exponent x = exponent_upto 2045 \<bar>x\<bar>"

definition round_double :: "real \<Rightarrow> real" where
  "round_double x =
     (let ulp = 2 powi (double_exponent x - 52)
      in of_int (round_half_even (x / ulp)) * ulp)"

text \<open>Float multiplication and subtraction.\<close>

definition float_mul :: "real \<Rightarrow> real \<Rightarrow> real" where
  "float_mul x y = round_double (x * y)"

definition float_sub :: "real \<Rightarrow> real \<Rightarrow> real" where
  "float_sub x y = round_double (x - y)"

text \<open>\<open>random.choice(seq)\<close>: an element of \<open>seq\<close>; IndexError on the empty sequence.\<close>

definition random_choice :: "'a list \<Rightarrow> rng \<Rightarrow> error + ('a \<times> rng)" where
  "random_choice xs r =
     (if xs = [] then Inl IndexError
      else Inr (xs ! (picks r 0 mod length xs), next_pick r))"

text \<open>
  \<open>np.random.choice(range(n), 2)\<close>: two indices below \<open>n\<close>, drawn independently (with
  replacement, numpy's default); ValueError when \<open>n\<close> is 0.
\<close>

definition np_random_choice2 :: "nat \<Rightarrow> rng \<Rightarrow> error + ((nat \<times> nat) \<times> rng)" where
  "np_random_choice2 n r =
     (if n = 0 then Inl ValueError
      else Inr ((picks r 0 mod n, picks r 1 mod n), next_pick (next_pick r)))"

text \<open>
  \<open>random.choices(population, weights, k=1)[0]\<close>: an element of the population;
  IndexError on an empty population, ValueError when the number of weights differs from
  the size of the population or when their total is not positive.
\<close>

definition random_choices1 :: "'a list \<Rightarrow> real list \<Rightarrow> rng \<Rightarrow> error + ('a \<times> rng)" where
  "random_choices1 population weights r =
     (if length weights \<noteq> length population then Inl ValueError
      else if population = [] then Inl IndexError
      else if sum_list weights \<le> 0 then Inl ValueError
      else Inr (population ! (picks r 0 mod length population), next_pick r))"

subsection \<open>Directed graphs (networkx.DiGraph)\<close>

text \<open>
  A graph keeps its nodes in insertion order, the \<open>label\<close> attribute of its nodes, and its
  edges with their attribute dictionaries in insertion order. The only edge attributes the
  program reads or writes are \<open>length\<close> and \<open>prob\<close>.
\<close>

record edge_attr =
  length_attr :: "real option"
  prob_attr :: "real option"

type_synonym edge = "int \<times> int"

record digraph =
  nodes :: "int list"
  label :: "int \<Rightarrow> int option"
  edges :: "(edge \<times> edge_attr) list"

definition no_attr :: edge_attr where
  "no_attr = \<lparr>length_attr = None, prob_attr = None\<rparr>"

definition empty_graph :: digraph where
  "empty_graph = \<lparr>nodes = [], label = (\<lambda>_. None), edges = []\<rparr>"

definition edge_set :: "digraph \<Rightarrow> edge set" where
  "edge_set G = set (map fst (edges G))"

definition has_edge :: "digraph \<Rightarrow> edge \<Rightarrow> bool" where
  "has_edge G e = (e \<in> set (map fst (edges G)))"

definition successors :: "digraph \<Rightarrow> int \<Rightarrow> int list" where
  "successors G u = map (\<lambda>p. snd (fst p)) (filter (\<lambda>p. fst (fst p) = u) (edges G))"

definition predecessors :: "digraph \<Rightarrow> int \<Rightarrow> int list" where
  "predecessors G v = map (\<lambda>p. fst (fst p)) (filter (\<lambda>p. snd (fst p) = v) (edges G))"

text \<open>\<open>list(G.edges())\<close>: node by node in node order, each node's out-edges in their order.\<close>

definition edge_list :: "digraph \<Rightarrow> edge list" where
  "edge_list G = concat (map (\<lambda>u. map (Pair u) (successors G u)) (nodes G))"

definition add_node :: "digraph \<Rightarrow> int \<Rightarrow> digraph" where
  "add_node G v = (if v \<in> set (nodes G) then G else G\<lparr>nodes := nodes G @ [v]\<rparr>)"

text \<open>\<open>G.add_edge(u, v)\<close> adds missing endpoints; an edge already there keeps its attributes.\<close>

definition add_edge :: "digraph \<Rightarrow> int \<Rightarrow> int \<Rightarrow> digraph" where
  "add_edge G u v =
     (let G1 = add_node (add_node G u) v
      in if has_edge G1 (u, v) then G1 else G1\<lparr>edges := edges G1 @ [((u, v), no_attr)]\<rparr>)"

definition add_edges_from :: "digraph \<Rightarrow> edge list \<Rightarrow> digraph" where
  "add_edges_from G es = fold (\<lambda>e G'. add_edge G' (fst e) (snd e)) es G"

text \<open>\<open>G.remove_edges_from(ebunch)\<close> ignores edges that are not there.\<close>

definition remove_edges_from :: "digraph \<Rightarrow> edge list \<Rightarrow> digraph" where
  "remove_edges_from G es = G\<lparr>edges := filter (\<lambda>p. fst p \<notin> set es) (edges G)\<rparr>"

text \<open>\<open>G[u][v]\<close>: the attribute dictionary of an edge; KeyError when the edge is missing.\<close>

definition get_edge :: "digraph \<Rightarrow> edge \<Rightarrow> error + edge_attr" where
  "get_edge G e = (case map_of (edges G) e of None \<Rightarrow> Inl KeyError | Some a \<Rightarrow> Inr a)"

definition upd_attr :: "edge \<Rightarrow> (edge_attr \<Rightarrow> edge_attr) \<Rightarrow> (edge \<times> edge_attr) list
    \<Rightarrow> (edge \<times> edge_attr) list" where
  "upd_attr e f ps = map (\<lambda>p. if fst p = e then (fst p, f (snd p)) else p) ps"

text \<open>\<open>G[u][v]['length'] = x\<close> and \<open>G[u][v]['prob'] = x\<close>.\<close>

definition set_length :: "digraph \<Rightarrow> edge \<Rightarrow> real \<Rightarrow> error + digraph" where
  "set_length G e x =
     (if has_edge G e
      then Inr (G\<lparr>edges := upd_attr e (\<lambda>a. a\<lparr>length_attr := Some x\<rparr>) (edges G)\<rparr>)
      else Inl KeyError)"

definition set_prob :: "digraph \<Rightarrow> edge \<Rightarrow> real \<Rightarrow> error + digraph" where
  "set_prob G e x =
     (if has_edge G e
      then Inr (G\<lparr>edges := upd_attr e (\<lambda>a. a\<lparr>prob_attr := Some x\<rparr>) (edges G)\<rparr>)
      else Inl KeyError)"

text \<open>
  \<open>nx.has_path(G, source, target)\<close>: whether a directed path leads from source to target
  (a node reaches itself); NodeNotFound when an endpoint is not a node. \<open>reach k G xs\<close> is
  the list of nodes within \<open>k\<close> steps of \<open>xs\<close>; no shortest path is longer than the number
  of edges.
\<close>

fun reach :: "nat \<Rightarrow> digraph \<Rightarrow> int list \<Rightarrow> int list" where
  "reach 0 G xs = xs"
| "reach (Suc k) G xs = reach k G (remdups (xs @ concat (map (successors G) xs)))"

definition reachable :: "digraph \<Rightarrow> int \<Rightarrow> int \<Rightarrow> bool" where
  "reachable G s t = (t \<in> set (reach (length (edges G)) G [s]))"

definition has_path :: "digraph \<Rightarrow> int \<Rightarrow> int \<Rightarrow> error + bool" where
  "has_path G s t =
     (if s \<notin> set (nodes G) \<or> t \<notin> set (nodes G) then Inl NodeNotFound
      else Inr (reachable G s t))"

text \<open>The invariants networkx keeps: no node and no edge twice, every endpoint a node.\<close>

definition graph_ok :: "digraph \<Rightarrow> bool" where
  "graph_ok G =
     (distinct (nodes G) \<and> distinct (map fst (edges G)) \<and>
      list_all (\<lambda>p. fst (fst p) \<in> set (nodes G) \<and> snd (fst p) \<in> set (nodes G)) (edges G))"

text \<open>No directed cycle: no edge whose head reaches its tail.\<close>

definition is_dag :: "digraph \<Rightarrow> bool" where
  "is_dag G = list_all (\<lambda>p. \<not> reachable G (snd (fst p)) (fst (fst p))) (edges G)"

subsection \<open>AddEdgeBetween\<close>

definition max_list :: "int list \<Rightarrow> int" where
  "max_list xs = fold max (tl xs) (hd xs)"

text \<open>
  Lines 149-155 and 156-162 of the source are one block, run for \<open>(edge1, new_nodes[0])\<close>
  and for \<open>(edge2, new_nodes[1])\<close>: the length of the removed edge \<open>(p, c)\<close> is divided
  between \<open>(p, x)\<close> and \<open>(x, c)\<close> at a random point, its probability goes to \<open>(x, c)\<close>.
\<close>

definition redistribute ::
  "digraph \<Rightarrow> edge \<Rightarrow> int \<Rightarrow> real option \<Rightarrow> real option \<Rightarrow> rng \<Rightarrow> error + (digraph \<times> rng)" where
  "redistribute network e x len prb r =
     ebind (case len of
              None \<Rightarrow> Inr (network, r)
            | Some l \<Rightarrow>
                (let (u, r1) = random_random r;
                     l1 = float_mul u l;
                     l2 = float_sub l l1
                 in ebind (set_length network (fst e, x) l1) (\<lambda>n1.
                    ebind (set_length n1 (x, snd e) l2) (\<lambda>n2. Inr (n2, r1)))))
       (\<lambda>(n2, r1).
          case prb of
            None \<Rightarrow> Inr (n2, r1)
          | Some p \<Rightarrow> ebind (set_prob n2 (x, snd e) p) (\<lambda>n3. Inr (n3, r1)))"

definition AddEdgeBetween ::
  "digraph \<Rightarrow> edge \<Rightarrow> edge \<Rightarrow> (int \<times> int) option \<Rightarrow> rng \<Rightarrow> error + (digraph \<times> rng)" where
  "AddEdgeBetween network edge1 edge2 new_nodes r =
     ebind (case new_nodes of
              None \<Rightarrow>
                (if nodes network = [] then Inl ValueError
                 else (let max_node = max_list (nodes network)
                       in Inr (max_node + 1, max_node + 2)))
            | Some nn \<Rightarrow> Inr nn)
       (\<lambda>new_nodes.
     ebind (has_path network (snd edge2) (fst edge1))
       (\<lambda>above.
     let e1 = (if above then edge2 else edge1);
         e2 = (if above then edge1 else edge2)
     in
     ebind (get_edge network e1)
       (\<lambda>a1.
     ebind (get_edge network e2)
       (\<lambda>a2.
     let length1 = length_attr a1;
         prob1 = prob_attr a1;
         length2 = length_attr a2;
         prob2 = prob_attr a2;
         n1 = remove_edges_from network [e1, e2];
         n2 = add_edges_from n1
                [(fst e1, fst new_nodes), (fst new_nodes, snd e1),
                 (fst e2, snd new_nodes), (snd new_nodes, snd e2),
                 (fst new_nodes, snd new_nodes)]
     in
     ebind (redistribute n2 e1 (fst new_nodes) length1 prob1 r)
       (\<lambda>(n3, r1). redistribute n3 e2 (snd new_nodes) length2 prob2 r1)))))"

subsection \<open>AddEdgeUniform\<close>

definition AddEdgeUniform ::
  "digraph \<Rightarrow> (int \<times> int) option \<Rightarrow> rng \<Rightarrow> error + (digraph \<times> rng)" where
  "AddEdgeUniform network new_nodes r =
     (let es = edge_list network
      in ebind (np_random_choice2 (length es) r)
           (\<lambda>(edge_indices, r1).
              AddEdgeBetween network (es ! fst edge_indices) (es ! snd edge_indices)
                new_nodes r1))"

subsection \<open>AddEdgeLocal\<close>

text \<open>\<open>G.successors(n)\<close> and \<open>G.predecessors(n)\<close> raise NetworkXError when \<open>n\<close> is no node.\<close>

definition neighbours :: "digraph \<Rightarrow> int \<Rightarrow> error + int list" where
  "neighbours G n =
     (if n \<in> set (nodes G) then Inr (successors G n @ predecessors G n)
      else Inl NetworkXError)"

text \<open>
  The inner loop of \<open>AddEdgeLocal\<close> (lines 189-193): the random walk. It may run for ever
  (no \<open>max_steps\<close> and no draw below \<open>stop_prob\<close>); not returning is the value \<open>None\<close>.
\<close>

partial_function (option) walk ::
  "digraph \<Rightarrow> real \<Rightarrow> int option \<Rightarrow> int \<Rightarrow> int \<Rightarrow> int \<Rightarrow> rng
     \<Rightarrow> (error + (int \<times> int \<times> rng)) option" where
  "walk network stop_prob max_steps step_number previous_node current_node r =
     (if max_steps = None \<or> step_number \<le> the max_steps then
        (case ebind (neighbours network current_node) (\<lambda>ns. random_choice ns r) of
           Inl e \<Rightarrow> Some (Inl e)
         | Inr (next_node, r1) \<Rightarrow>
             (let (u, r2) = random_random r1
              in if u < stop_prob then Some (Inr (current_node, next_node, r2))
                 else walk network stop_prob max_steps (step_number + 1)
                        current_node next_node r2))
      else Some (Inr (previous_node, current_node, r)))"

text \<open>One pass of the outer loop body (lines 180-197): the two edges it leaves in
  \<open>edge1\<close> and \<open>edge2\<close>.\<close>

definition attempt ::
  "digraph \<Rightarrow> real \<Rightarrow> int option \<Rightarrow> rng \<Rightarrow> (error + (edge \<times> edge \<times> rng)) option" where
  "attempt network stop_prob max_steps r =
     (case random_choice (edge_list network) r of
        Inl e \<Rightarrow> Some (Inl e)
      | Inr (edge1, r1) \<Rightarrow>
          (case random_choice [fst edge1, snd edge1] r1 of
             Inl e \<Rightarrow> Some (Inl e)
           | Inr (previous_node, r2) \<Rightarrow>
               (let current_node = (if fst edge1 = previous_node then snd edge1 else fst edge1)
                in case walk network stop_prob max_steps 1 previous_node current_node r2 of
                     None \<Rightarrow> None
                   | Some (Inl e) \<Rightarrow> Some (Inl e)
                   | Some (Inr (previous_node, current_node, r3)) \<Rightarrow>
                       (let edge2 = (if has_edge network (previous_node, current_node)
                                     then (previous_node, current_node)
                                     else (current_node, previous_node))
                        in Some (Inr (edge1, edge2, r3))))))"

text \<open>
  The outer loop (lines 177-201). \<open>found\<close> holds the values of \<open>edge1\<close> and \<open>edge2\<close> left
  by the previous pass, \<open>None\<close> before the first one: when the loop ends because
  \<open>try_number\<close> exceeds \<open>max_tries\<close>, line 202 reads them as they are.
\<close>

partial_function (option) select_local ::
  "digraph \<Rightarrow> real \<Rightarrow> int option \<Rightarrow> int option \<Rightarrow> int \<Rightarrow> (edge \<times> edge) option \<Rightarrow> rng
     \<Rightarrow> (error + (edge \<times> edge \<times> rng)) option" where
  "select_local network stop_prob max_steps max_tries try_number found r =
     (if max_tries = None \<or> try_number \<le> the max_tries then
        (case attempt network stop_prob max_steps r of
           None \<Rightarrow> None
         | Some (Inl e) \<Rightarrow> Some (Inl e)
         | Some (Inr (edge1, edge2, r1)) \<Rightarrow>
             if edge1 \<noteq> edge2 then Some (Inr (edge1, edge2, r1))
             else select_local network stop_prob max_steps max_tries (try_number + 1)
                    (Some (edge1, edge2)) r1)
      else (case found of
              None \<Rightarrow> Some (Inl UnboundLocalError)
            | Some (edge1, edge2) \<Rightarrow> Some (Inr (edge1, edge2, r))))"

definition AddEdgeLocal ::
  "digraph \<Rightarrow> (int \<times> int) option \<Rightarrow> real \<Rightarrow> int option \<Rightarrow> int option \<Rightarrow> rng
     \<Rightarrow> (error + (digraph \<times> rng)) option" where
  "AddEdgeLocal network new_nodes stop_prob max_steps max_tries r =
     (case select_local network stop_prob max_steps max_tries 1 None r of
        None \<Rightarrow> None
      | Some (Inl e) \<Rightarrow> Some (Inl e)
      | Some (Inr (edge1, edge2, r1)) \<Rightarrow>
          Some (AddEdgeBetween network edge1 edge2 new_nodes r1))"

subsection \<open>GenerateNetwork\<close>

text \<open>\<open>method\<close> is \<open>None\<close> for uniform insertion, else the stop probability of the walk.\<close>

fun insertions ::
  "nat \<Rightarrow> real option \<Rightarrow> digraph \<Rightarrow> rng \<Rightarrow> (error + (digraph \<times> rng)) option" where
  "insertions 0 method network r = Some (Inr (network, r))"
| "insertions (Suc k) method network r =
     (case (case method of
              None \<Rightarrow> Some (AddEdgeUniform network None r)
            | Some stop_prob \<Rightarrow> AddEdgeLocal network None stop_prob None None r) of
        None \<Rightarrow> None
      | Some (Inl e) \<Rightarrow> Some (Inl e)
      | Some (Inr (network', r')) \<Rightarrow> insertions k method network' r')"

definition GenerateNetwork ::
  "digraph \<Rightarrow> int \<Rightarrow> real option \<Rightarrow> rng \<Rightarrow> (error + (digraph \<times> rng)) option" where
  "GenerateNetwork tree0 r method rg = insertions (nat r) method tree0 rg"

subsection \<open>computeProb and simulateBetaSplitting\<close>

text \<open>
  \<open>scipy.special.loggamma\<close> is a parameter of the model. The weights only reach
  \<open>random.choices\<close>.
\<close>

definition a_n :: "real \<Rightarrow> real" where
  "a_n beta = 1"

definition computeProb :: "(real \<Rightarrow> real) \<Rightarrow> int \<Rightarrow> real \<Rightarrow> real list" where
  "computeProb loggamma n beta =
     map (\<lambda>i. exp ((loggamma (beta + of_int i + 1) + loggamma (beta + of_int n - of_int i + 1))
                   - (a_n beta + loggamma (of_int i + 1) + loggamma (of_int n - of_int i + 1))))
       [1..n - 1]"

record sim_state =
  tree :: digraph
  last_internal_node :: int
  last_leaf_node :: int
  queue :: "int list"
  rnd :: rng

text \<open>\<open>tree.node[v]['label'] = x\<close> and \<open>tree.node[v].get('label')\<close>: KeyError when \<open>v\<close> is
  no node.\<close>

definition set_label :: "digraph \<Rightarrow> int \<Rightarrow> int \<Rightarrow> error + digraph" where
  "set_label G v x =
     (if v \<in> set (nodes G) then Inr (G\<lparr>label := (label G)(v \<mapsto> x)\<rparr>) else Inl KeyError)"

definition get_label :: "digraph \<Rightarrow> int \<Rightarrow> error + int option" where
  "get_label G v = (if v \<in> set (nodes G) then Inr (label G v) else Inl KeyError)"

text \<open>The body of the loop over the two children (lines 110-117).\<close>

definition add_child :: "int \<Rightarrow> sim_state \<Rightarrow> int \<Rightarrow> error + sim_state" where
  "add_child node st new_n =
     (if new_n = 1 then
        Inr (st\<lparr>tree := add_edge (tree st) node (last_leaf_node st + 1),
                last_leaf_node := last_leaf_node st + 1\<rparr>)
      else
        ebind (set_label (add_edge (tree st) node (last_internal_node st + 1))
                 (last_internal_node st + 1) new_n)
          (\<lambda>t. Inr (st\<lparr>tree := t,
                         queue := queue st @ [last_internal_node st + 1],
                         last_internal_node := last_internal_node st + 1\<rparr>)))"

text \<open>One pass of the while loop (lines 101-117); the queue is not empty.
  Comparing a missing label with 1 raises TypeError.\<close>

definition sim_step :: "(real \<Rightarrow> real) \<Rightarrow> real \<Rightarrow> sim_state \<Rightarrow> error + sim_state" where
  "sim_step loggamma beta st =
     (let node = last (queue st);
          st1 = st\<lparr>queue := butlast (queue st)\<rparr>
      in ebind (get_label (tree st1) node)
           (\<lambda>lab. case lab of
                     None \<Rightarrow> Inl TypeError
                   | Some n_node \<Rightarrow>
                       if n_node > 1 then
                         (let q_n = computeProb loggamma n_node beta
                          in ebind (random_choices1 [1..n_node - 1] q_n (rnd st1))
                               (\<lambda>(split, r1).
                                  ebind (add_child node (st1\<lparr>rnd := r1\<rparr>) split)
                                    (\<lambda>st2. add_child node st2 (n_node - split))))
                       else Inr st1))"

partial_function (option) sim_loop ::
  "(real \<Rightarrow> real) \<Rightarrow> real \<Rightarrow> sim_state \<Rightarrow> (error + sim_state) option" where
  "sim_loop loggamma beta st =
     (if queue st = [] then Some (Inr st)
      else (case sim_step loggamma beta st of
              Inl e \<Rightarrow> Some (Inl e)
            | Inr st' \<Rightarrow> sim_loop loggamma beta st'))"

definition sim_init :: "int \<Rightarrow> rng \<Rightarrow> error + sim_state" where
  "sim_init n r =
     ebind (set_label (add_node empty_graph (n + 1)) (n + 1) n)
       (\<lambda>t. Inr \<lparr>tree = t, last_internal_node = n + 1, last_leaf_node = 0,
                  queue = [n + 1], rnd = r\<rparr>)"

definition simulateBetaSplitting ::
  "(real \<Rightarrow> real) \<Rightarrow> int \<Rightarrow> real \<Rightarrow> rng \<Rightarrow> (error + (digraph \<times> rng)) option" where
  "simulateBetaSplitting loggamma n beta r =
     (case sim_init n r of
        Inl e \<Rightarrow> Some (Inl e)
      | Inr st \<Rightarrow>
          (case sim_loop loggamma beta st of
             None \<Rightarrow> None
           | Some (Inl e) \<Rightarrow> Some (Inl e)
           | Some (Inr st') \<Rightarrow> Some (Inr (tree st', rnd st'))))"

subsection \<open>OutputNetwork and the main program\<close>

fun str_nat :: "nat \<Rightarrow> string" where
  "str_nat n =
     (if n < 10 then [''0123456789'' ! n]
      else str_nat (n div 10) @ [''0123456789'' ! (n mod 10)])"

definition str_int :: "int \<Rightarrow> string" where
  "str_int i = (if i < 0 then CHR ''-'' # str_nat (nat (- i)) else str_nat (nat i))"

definition crlf :: string where
  "crlf = [CHR 0x0D, CHR 0x0A]"

text \<open>The two loops of \<open>OutputNetwork\<close> write a separator before every line but the first.\<close>

definition join_lines :: "string list \<Rightarrow> string" where
  "join_lines ls =
     fold (\<lambda>(i, l) output. output @ (if i \<noteq> 0 then crlf else []) @ l) (enumerate 0 ls) []"

definition OutputNetwork :: "digraph \<Rightarrow> string \<Rightarrow> string" where
  "OutputNetwork network out_type =
     (if out_type = ''el'' then
        join_lines (map (\<lambda>e. str_int (fst e) @ '' '' @ str_int (snd e)) (edge_list network))
      else if out_type = ''pl'' then
        join_lines (map (\<lambda>v. str_int v @ concat (map (\<lambda>p. '' '' @ str_int p)
                                                      (predecessors network v)))
                      (nodes network))
      else [])"

text \<open>Lines 230-232, after the arguments are parsed.\<close>

definition main ::
  "(real \<Rightarrow> real) \<Rightarrow> int \<Rightarrow> real \<Rightarrow> int \<Rightarrow> real option \<Rightarrow> string \<Rightarrow> rng
     \<Rightarrow> (error + string) option" where
  "main loggamma tree_size beta retics local out_type r =
     (case simulateBetaSplitting loggamma tree_size beta r of
        None \<Rightarrow> None
      | Some (Inl e) \<Rightarrow> Some (Inl e)
      | Some (Inr (tree0, r1)) \<Rightarrow>
          (case GenerateNetwork tree0 retics local r1 of
             None \<Rightarrow> None
           | Some (Inl e) \<Rightarrow> Some (Inl e)
           | Some (Inr (network, r2)) \<Rightarrow> Some (Inr (OutputNetwork network out_type))))"

subsection \<open>Notions the properties are stated with\<close>

text \<open>Leaves have no out-edge, roots no in-edge.\<close>

definition leaves :: "digraph \<Rightarrow> int list" where
  "leaves G = filter (\<lambda>v. successors G v = []) (nodes G)"

definition roots :: "digraph \<Rightarrow> int list" where
  "roots G = filter (\<lambda>v. predecessors G v = []) (nodes G)"

text \<open>The number of tips a node stands for: its label, and 1 for a leaf, which has none.\<close>

definition tips_of :: "digraph \<Rightarrow> int \<Rightarrow> int" where
  "tips_of G v = (case label G v of None \<Rightarrow> 1 | Some m \<Rightarrow> m)"

text \<open>The roles of the two edges after line 138-139: \<open>(edge1, edge2)\<close> as the rest of
  \<open>AddEdgeBetween\<close> uses them.\<close>

definition oriented :: "digraph \<Rightarrow> edge \<Rightarrow> edge \<Rightarrow> edge \<times> edge" where
  "oriented G a b = (if reachable G (snd b) (fst a) then (b, a) else (a, b))"

text \<open>The two halves of a subdivided edge \<open>e\<close> with attributes \<open>a\<close>, new node \<open>x\<close> and
  random draw \<open>u\<close>.\<close>

definition halves :: "edge \<Rightarrow> int \<Rightarrow> edge_attr \<Rightarrow> real \<Rightarrow> (edge \<times> edge_attr) list" where
  "halves e x a u =
     [((fst e, x), \<lparr>length_attr = map_option (\<lambda>l. float_mul u l) (length_attr a),
                    prob_attr = None\<rparr>),
      ((x, snd e), \<lparr>length_attr = map_option (\<lambda>l. float_sub l (float_mul u l)) (length_attr a),
                    prob_attr = prob_attr a\<rparr>)]"

text \<open>A draw of \<open>random.random()\<close> is made only for an edge that has a length.\<close>

definition after_draw :: "edge_attr \<Rightarrow> rng \<Rightarrow> rng" where
  "after_draw a r = (if length_attr a = None then r else next_float r)"

text \<open>The edges after one insertion between \<open>a\<close> and \<open>b\<close>, in order.\<close>

definition spliced_keys :: "digraph \<Rightarrow> edge \<Rightarrow> edge \<Rightarrow> edge list" where
  "spliced_keys G a b =
     (let e1 = fst (oriented G a b); e2 = snd (oriented G a b);
          X = max_list (nodes G) + 1; Y = max_list (nodes G) + 2
      in filter (\<lambda>e. e \<notin> set [e1, e2]) (map fst (edges G)) @
         [(fst e1, X), (X, snd e1), (fst e2, Y), (Y, snd e2), (X, Y)])"

text \<open>The tree with two tips, and a random source whose every draw is 0.\<close>

definition two_tip_tree :: digraph where
  "two_tip_tree =
     \<lparr>nodes = [3, 1, 2], label = (\<lambda>_. None)(3 \<mapsto> 2),
      edges = [((3, 1), no_attr), ((3, 2), no_attr)]\<rparr>"

definition zero_rng :: rng where
  "zero_rng = \<lparr>picks = (\<lambda>_. 0), floats = (\<lambda>_. 0)\<rparr>"

text \<open>The length and the probability an edge carries, \<open>None\<close> when it carries none.\<close>

definition edge_length :: "digraph \<Rightarrow> edge \<Rightarrow> real option" where
  "edge_length G e = (case map_of (edges G) e of None \<Rightarrow> None | Some a \<Rightarrow> length_attr a)"

definition edge_prob :: "digraph \<Rightarrow> edge \<Rightarrow> real option" where
  "edge_prob G e = (case map_of (edges G) e of None \<Rightarrow> None | Some a \<Rightarrow> prob_attr a)"

text \<open>A tree with two tips whose edges carry attributes, and a random source whose every
  draw of \<open>random.random()\<close> is a quarter. All the lengths that arise are floats.\<close>

definition weighted_tree :: digraph where
  "weighted_tree =
     \<lparr>nodes = [3, 1, 2], label = (\<lambda>_. None)(3 \<mapsto> 2),
      edges = [((3, 1), \<lparr>length_attr = Some 2, prob_attr = Some (1 / 2)\<rparr>),
               ((3, 2), \<lparr>length_attr = Some 4, prob_attr = None\<rparr>)]\<rparr>"

definition quarter_rng :: rng where
  "quarter_rng = \<lparr>picks = (\<lambda>_. 0), floats = (\<lambda>_. 2 ^ 51)\<rparr>"

text \<open>
  A tree whose edge \<open>(3, 1)\<close> has the float nearest to 0.9 as its length, and a random source
  whose every draw of \<open>random.random()\<close> is 0.19020826279792913; the result of a run as a
  graph, the empty graph when the run raises.
\<close>

definition nine_tenths :: real where
  "nine_tenths = 8106479329266893 / 2 ^ 53"

definition rounding_tree :: digraph where
  "rounding_tree =
     \<lparr>nodes = [3, 1, 2], label = (\<lambda>_. None)(3 \<mapsto> 2),
      edges = [((3, 1), \<lparr>length_attr = Some nine_tenths, prob_attr = None\<rparr>),
               ((3, 2), no_attr)]\<rparr>"

definition rounding_rng :: rng where
  "rounding_rng = \<lparr>picks = (\<lambda>_. 0), floats = (\<lambda>_. 1713243722919086)\<rparr>"

definition graph_of :: "error + (digraph \<times> rng) \<Rightarrow> digraph" where
  "graph_of res = (case res of Inl e \<Rightarrow> empty_graph | Inr p \<Rightarrow> fst p)"

text \<open>A random source whose first index draw is 0 and whose later ones are 1.\<close>

definition later_rng :: rng where
  "later_rng = \<lparr>picks = (\<lambda>i. if i = 0 then 0 else 1), floats = (\<lambda>_. 0)\<rparr>"

text \<open>
  The invariant of the loop of \<open>simulateBetaSplitting\<close>. \<open>cur\<close> is the node that is being
  split, if any. \<open>tips_sum T v\<close> is the number of tips handed to the children \<open>v\<close> has so
  far, \<open>remaining\<close> what the node being split has still to hand out, \<open>open_slots\<close> the
  number of children it still lacks, \<open>queued_tips\<close> the tips of the nodes in the queue.
\<close>

definition tips_sum :: "digraph \<Rightarrow> int \<Rightarrow> int" where
  "tips_sum T v = sum_list (map (tips_of T) (successors T v))"

definition remaining :: "digraph \<Rightarrow> int option \<Rightarrow> int" where
  "remaining T cur = (case cur of None \<Rightarrow> 0 | Some v \<Rightarrow> tips_of T v - tips_sum T v)"

definition open_slots :: "digraph \<Rightarrow> int option \<Rightarrow> int" where
  "open_slots T cur = (case cur of None \<Rightarrow> 0 | Some v \<Rightarrow> 2 - int (length (successors T v)))"

definition queued_tips :: "digraph \<Rightarrow> int list \<Rightarrow> int" where
  "queued_tips T q = sum_list (map (tips_of T) q)"

text \<open>
  Nodes 1 to the last leaf are leaves, nodes \<open>n + 1\<close> to the last internal node carry labels;
  a queued node has a label of at least 2 and no child yet; a node that was split has two
  children whose tips add up to its label; the tips of the leaves, of the queue and of the
  node being split add up to \<open>n\<close>.
\<close>

definition sim_inv :: "int \<Rightarrow> sim_state \<Rightarrow> int option \<Rightarrow> bool" where
  "sim_inv n st cur =
     (let T = tree st; li = last_internal_node st; ll = last_leaf_node st; q = queue st
      in graph_ok T \<and> acyclic (edge_set T) \<and>
         set (nodes T) = {1..ll} \<union> {n + 1..li} \<and>
         0 \<le> ll \<and> ll \<le> n \<and> n + 1 \<le> li \<and>
         distinct q \<and> set q \<subseteq> {n + 1..li} \<and>
         (\<forall>v\<in>set q. successors T v = [] \<and> (\<exists>m\<ge>2. label T v = Some m)) \<and>
         (\<forall>v. v \<notin> {n + 1..li} \<longrightarrow> label T v = None) \<and>
         (\<forall>v\<in>{1..ll}. successors T v = []) \<and>
         (\<forall>v\<in>{n + 1..li}. v \<notin> set q \<and> cur \<noteq> Some v \<longrightarrow>
            length (successors T v) = 2 \<and> label T v = Some (tips_sum T v)) \<and>
         (\<forall>v. cur = Some v \<longrightarrow> v \<in> {n + 1..li} \<and> v \<notin> set q \<and> label T v \<noteq> None) \<and>
         predecessors T (n + 1) = [] \<and>
         (\<forall>v\<in>set (nodes T). v \<noteq> n + 1 \<longrightarrow> length (predecessors T v) = 1) \<and>
         ll + queued_tips T q + remaining T cur = n \<and>
         li = n - 1 + ll + 2 * int (length q) + open_slots T cur \<and>
         label T (n + 1) = Some n)"

text \<open>A graph with one more edge, to a new node.\<close>

definition grow :: "digraph \<Rightarrow> int \<Rightarrow> int \<Rightarrow> digraph" where
  "grow G v x = G\<lparr>nodes := nodes G @ [x], edges := edges G @ [((v, x), no_attr)]\<rparr>"

text \<open>What decreases with every pass of the loop.\<close>

definition sim_measure :: "int \<Rightarrow> sim_state \<Rightarrow> int" where
  "sim_measure n st = 2 * (n - last_leaf_node st) - int (length (queue st))"

text \<open>A text read as its lines, separated by carriage return and line feed.\<close>

fun lines_from :: "string \<Rightarrow> string \<Rightarrow> string list" where
  "lines_from cur [] = [cur]"
| "lines_from cur [c] = [cur @ [c]]"
| "lines_from cur (c # d # cs) =
     (if c = CHR 0x0D \<and> d = CHR 0x0A then cur # lines_from [] cs
      else lines_from (cur @ [c]) (d # cs))"

definition lines_of :: "string \<Rightarrow> string list" where
  "lines_of s = lines_from [] s"

section \<open>Properties\<close>

lemma set_successors: "set (successors G u) = {v. (u, v) \<in> edge_set G}"
  by (force simp: successors_def edge_set_def)

lemma set_predecessors: "set (predecessors G v) = {u. (u, v) \<in> edge_set G}"
  by (force simp: predecessors_def edge_set_def)

lemma set_reach:
  "set (reach k G xs) = {t. \<exists>s\<in>set xs. \<exists>i\<le>k. (s, t) \<in> edge_set G ^^ i}"
proof (induction k arbitrary: xs)
  case 0
  then show ?case by auto
next
  case (Suc k)
  have step: "set (remdups (xs @ concat (map (successors G) xs)))
      = set xs \<union> {v. \<exists>u\<in>set xs. (u, v) \<in> edge_set G}"
    by (auto simp: set_successors)
  show ?case
  proof (intro set_eqI iffI)
    fix t assume "t \<in> set (reach (Suc k) G xs)"
    then obtain s i where s: "s \<in> set xs \<union> {v. \<exists>u\<in>set xs. (u, v) \<in> edge_set G}"
      and i: "i \<le> k" "(s, t) \<in> edge_set G ^^ i"
      using Suc.IH step by auto
    from s show "t \<in> {t. \<exists>s\<in>set xs. \<exists>i\<le>Suc k. (s, t) \<in> edge_set G ^^ i}"
    proof
      assume "s \<in> set xs"
      with i show ?thesis by (auto intro: le_SucI)
    next
      assume "s \<in> {v. \<exists>u\<in>set xs. (u, v) \<in> edge_set G}"
      then obtain u where u: "u \<in> set xs" "(u, s) \<in> edge_set G" by auto
      then have "(u, t) \<in> edge_set G ^^ Suc i" using i(2) by (meson relpow_Suc_I2)
      with u i(1) show ?thesis by (metis (mono_tags, lifting) Suc_le_mono mem_Collect_eq)
    qed
  next
    fix t assume "t \<in> {t. \<exists>s\<in>set xs. \<exists>i\<le>Suc k. (s, t) \<in> edge_set G ^^ i}"
    then obtain s i where s: "s \<in> set xs" and i: "i \<le> Suc k" "(s, t) \<in> edge_set G ^^ i"
      by auto
    show "t \<in> set (reach (Suc k) G xs)"
    proof (cases i)
      case 0
      with i(2) have "s = t" by simp
      then have "t \<in> set xs \<union> {v. \<exists>u\<in>set xs. (u, v) \<in> edge_set G}" "(t, t) \<in> edge_set G ^^ 0"
        using s by auto
      then have "\<exists>s\<in>set xs \<union> {v. \<exists>u\<in>set xs. (u, v) \<in> edge_set G}. \<exists>i\<le>k. (s, t) \<in> edge_set G ^^ i"
        by blast
      then show ?thesis using Suc.IH step by simp
    next
      case (Suc j)
      with i(2) obtain v where v: "(s, v) \<in> edge_set G" "(v, t) \<in> edge_set G ^^ j"
        by (meson relpow_Suc_E2)
      have "j \<le> k" using Suc i(1) by simp
      with v s have "\<exists>s\<in>set xs \<union> {v. \<exists>u\<in>set xs. (u, v) \<in> edge_set G}. \<exists>i\<le>k. (s, t) \<in> edge_set G ^^ i"
        by blast
      then show ?thesis using Suc.IH step by simp
    qed
  qed
qed

lemma card_edge_set_le: "card (edge_set G) \<le> length (edges G)"
  unfolding edge_set_def by (metis card_length length_map)

lemma reachable_iff: "reachable G s t \<longleftrightarrow> (s, t) \<in> (edge_set G)\<^sup>*"
proof
  assume "reachable G s t"
  then show "(s, t) \<in> (edge_set G)\<^sup>*"
    by (auto simp: reachable_def set_reach intro: relpow_imp_rtrancl)
next
  assume "(s, t) \<in> (edge_set G)\<^sup>*"
  then obtain n where "(s, t) \<in> edge_set G ^^ n" by (auto simp: rtrancl_power)
  moreover have "finite (edge_set G)" by (simp add: edge_set_def)
  ultimately obtain i where "i \<le> card (edge_set G)" "(s, t) \<in> edge_set G ^^ i"
    using relpow_finite_bounded[of "edge_set G" n] by auto
  then show "reachable G s t"
    using card_edge_set_le[of G] by (auto simp: reachable_def set_reach intro: le_trans)
qed

lemma is_dag_iff: "is_dag G \<longleftrightarrow> acyclic (edge_set G)"
proof
  assume d: "is_dag G"
  show "acyclic (edge_set G)"
    unfolding acyclic_def
  proof (intro allI notI)
    fix x assume "(x, x) \<in> (edge_set G)\<^sup>+"
    then obtain y where "(x, y) \<in> edge_set G" "(y, x) \<in> (edge_set G)\<^sup>*"
      by (meson tranclD)
    with d show False
      by (auto simp: is_dag_def list_all_iff reachable_iff edge_set_def)
  qed
next
  assume a: "acyclic (edge_set G)"
  show "is_dag G"
    unfolding is_dag_def list_all_iff
  proof (intro ballI notI)
    fix p assume p: "p \<in> set (edges G)" and r: "reachable G (snd (fst p)) (fst (fst p))"
    obtain u v where uv: "fst p = (u, v)" by (cases "fst p")
    have "(u, v) \<in> edge_set G" using p uv by (force simp: edge_set_def)
    moreover have "(v, u) \<in> (edge_set G)\<^sup>*" using r uv by (simp add: reachable_iff)
    ultimately have "(u, u) \<in> (edge_set G)\<^sup>+" by (rule rtrancl_into_trancl2)
    with a show False by (auto simp: acyclic_def)
  qed
qed

lemma splice_acyclic:
  assumes ac: "acyclic E" and e1: "(p1, c1) \<in> E" and e2: "(p2, c2) \<in> E"
    and X: "X \<notin> Field E" and Y: "Y \<notin> Field E" and XY: "X \<noteq> Y"
    and np: "(c2, p1) \<notin> E\<^sup>*"
  shows "acyclic ((E - {(p1, c1), (p2, c2)}) \<union>
           {(p1, X), (X, c1), (p2, Y), (Y, c2), (X, Y)})"
proof -
  define E2 where "E2 = (E - {(p1, c1), (p2, c2)}) \<union> {(p1, X), (X, c1), (p2, Y), (Y, c2)}"
  define g :: "'a \<Rightarrow> 'a \<times> nat" where
    "g = (\<lambda>v. if v = X then (p1, 2) else if v = Y then (c2, 0) else (v, 1))"
  define L :: "(('a \<times> nat) \<times> ('a \<times> nat)) set" where
    "L = {((a, i), (b, j)). (a, b) \<in> E\<^sup>+ \<or> (a = b \<and> i < j)}"
  have fld: "\<And>a b. (a, b) \<in> E \<Longrightarrow> a \<noteq> X \<and> a \<noteq> Y \<and> b \<noteq> X \<and> b \<noteq> Y"
    using X Y by (auto simp: Field_def)
  have edge_L: "(g a, g b) \<in> L" if "(a, b) \<in> E2" for a b
  proof -
    from that consider "(a, b) \<in> E" | "a = p1 \<and> b = X" | "a = X \<and> b = c1"
      | "a = p2 \<and> b = Y" | "a = Y \<and> b = c2"
      by (auto simp: E2_def)
    then show ?thesis
    proof cases
      case 1
      then show ?thesis using fld[OF 1] by (auto simp: g_def L_def)
    next
      case 2
      then show ?thesis using fld[OF e1] XY by (auto simp: g_def L_def)
    next
      case 3
      then show ?thesis using fld[OF e1] XY e1 by (auto simp: g_def L_def)
    next
      case 4
      then show ?thesis using fld[OF e2] e2 XY by (auto simp: g_def L_def)
    next
      case 5
      then show ?thesis using fld[OF e2] XY by (auto simp: g_def L_def)
    qed
  qed
  have L_trans: "(x, z) \<in> L" if "(x, y) \<in> L" "(y, z) \<in> L" for x y z
    using that by (auto simp: L_def intro: trancl_trans)
  have path_L: "(g u, g v) \<in> L" if "(u, v) \<in> E2\<^sup>+" for u v
    using that by (induction rule: trancl_induct) (auto intro: edge_L L_trans)
  have L_irrefl: "(x, x) \<notin> L" for x
    using ac by (auto simp: L_def acyclic_def)
  have ac2: "acyclic E2"
    unfolding acyclic_def using path_L L_irrefl by blast
  have "(Y, X) \<notin> E2\<^sup>*"
  proof
    assume "(Y, X) \<in> E2\<^sup>*"
    with XY have "(Y, X) \<in> E2\<^sup>+" by (metis rtranclD)
    then have "(g Y, g X) \<in> L" by (rule path_L)
    then have "(c2, p1) \<in> E\<^sup>+ \<or> c2 = p1" using XY by (auto simp: g_def L_def)
    with np show False by (auto dest: trancl_into_rtrancl)
  qed
  with ac2 have "acyclic (insert (X, Y) E2)" by simp
  moreover have "insert (X, Y) E2 = (E - {(p1, c1), (p2, c2)}) \<union>
           {(p1, X), (X, c1), (p2, Y), (Y, c2), (X, Y)}"
    by (auto simp: E2_def)
  ultimately show ?thesis by simp
qed

lemma acyclic_no_back:
  assumes "acyclic E" "(p1, c1) \<in> E" "(p2, c2) \<in> E" "(c2, p1) \<in> E\<^sup>*"
  shows "(c1, p2) \<notin> E\<^sup>*"
proof
  assume "(c1, p2) \<in> E\<^sup>*"
  with assms(2) have "(p1, p2) \<in> E\<^sup>+" by (rule rtrancl_into_trancl2)
  with assms(3) have "(p1, c2) \<in> E\<^sup>+" by (meson trancl.trancl_into_trancl)
  with assms(4) have "(p1, p1) \<in> E\<^sup>+" by (meson trancl_rtrancl_trancl)
  with assms(1) show False by (auto simp: acyclic_def)
qed

lemma max_list_ge: "x \<in> set xs \<Longrightarrow> x \<le> max_list xs"
proof -
  assume x: "x \<in> set xs"
  then obtain y ys where xs: "xs = y # ys" by (cases xs) auto
  have "max_list xs = Max (set xs)" unfolding xs max_list_def by (simp add: Max.set_eq_fold[symmetric])
  with x show ?thesis by simp
qed

lemma max_list_fresh: "max_list xs + 1 \<notin> set xs" "max_list xs + 2 \<notin> set xs"
  using max_list_ge[of "max_list xs + 1" xs] max_list_ge[of "max_list xs + 2" xs] by auto

lemma keys_upd_attr [simp]: "map fst (upd_attr e f ps) = map fst ps"
  by (induction ps) (auto simp: upd_attr_def)

lemma upd_attr_notin: "e \<notin> fst ` set ps \<Longrightarrow> upd_attr e f ps = ps"
  by (induction ps) (auto simp: upd_attr_def)

lemma upd_attr_append: "upd_attr e f (ps @ qs) = upd_attr e f ps @ upd_attr e f qs"
  by (simp add: upd_attr_def)

lemma upd_attr_Cons:
  "upd_attr e f (p # ps) = (if fst p = e then (fst p, f (snd p)) else p) # upd_attr e f ps"
  by (simp add: upd_attr_def)

lemma upd_attr_Nil [simp]: "upd_attr e f [] = []"
  by (simp add: upd_attr_def)

lemma has_edge_edges_update [simp]:
  "has_edge (G\<lparr>edges := ps\<rparr>) e \<longleftrightarrow> e \<in> fst ` set ps"
  by (simp add: has_edge_def)

lemma redistribute_eq:
  assumes ps: "edges N = B @ [((fst e, x), no_attr), ((x, snd e), no_attr)] @ C"
    and B: "(fst e, x) \<notin> fst ` set B" "(x, snd e) \<notin> fst ` set B"
    and C: "(fst e, x) \<notin> fst ` set C" "(x, snd e) \<notin> fst ` set C"
    and ne: "fst e \<noteq> x" 
  shows "redistribute N e x (length_attr a) (prob_attr a) r =
     Inr (N\<lparr>edges := B @ halves e x a (fst (random_random r)) @ C\<rparr>, after_draw a r)"
proof -
  have neq: "(fst e, x) \<noteq> (x, snd e)" using ne by auto
  show ?thesis
    using B C neq
    by (cases "length_attr a"; cases "prob_attr a")
      (auto simp: redistribute_def ebind_def set_length_def set_prob_def has_edge_def ps
        upd_attr_append upd_attr_Cons upd_attr_notin halves_def after_draw_def no_attr_def
        random_random_def Let_def split: prod.splits)
qed

lemma graph_ok_endpoints:
  "graph_ok G \<Longrightarrow> has_edge G e \<Longrightarrow> fst e \<in> set (nodes G) \<and> snd e \<in> set (nodes G)"
  by (auto simp: graph_ok_def has_edge_def list_all_iff)

lemma get_edge_the:
  "has_edge G e \<Longrightarrow> get_edge G e = Inr (the (map_of (edges G) e))"
  by (auto simp: get_edge_def has_edge_def map_of_eq_None_iff split: option.splits)

lemma add_edge_new_target:
  "u \<in> set (nodes G) \<Longrightarrow> v \<notin> set (nodes G) \<Longrightarrow> (u, v) \<notin> fst ` set (edges G) \<Longrightarrow>
   add_edge G u v = G\<lparr>nodes := nodes G @ [v], edges := edges G @ [((u, v), no_attr)]\<rparr>"
  by (simp add: add_edge_def add_node_def has_edge_def Let_def)

lemma add_edge_old_nodes:
  "u \<in> set (nodes G) \<Longrightarrow> v \<in> set (nodes G) \<Longrightarrow> (u, v) \<notin> fst ` set (edges G) \<Longrightarrow>
   add_edge G u v = G\<lparr>edges := edges G @ [((u, v), no_attr)]\<rparr>"
  by (simp add: add_edge_def add_node_def has_edge_def Let_def)

lemma splice_edges:
  assumes ok: "graph_ok G" and e1: "has_edge G e1" and e2: "has_edge G e2"
    and X: "X \<notin> set (nodes G)" and Y: "Y \<notin> set (nodes G)" and XY: "X \<noteq> Y"
  shows "add_edges_from (remove_edges_from G [e1, e2])
           [(fst e1, X), (X, snd e1), (fst e2, Y), (Y, snd e2), (X, Y)] =
         G\<lparr>nodes := nodes G @ [X, Y],
           edges := filter (\<lambda>p. fst p \<notin> set [e1, e2]) (edges G) @
                    [((fst e1, X), no_attr), ((X, snd e1), no_attr),
                     ((fst e2, Y), no_attr), ((Y, snd e2), no_attr), ((X, Y), no_attr)]\<rparr>"
proof -
  note n1 = graph_ok_endpoints[OF ok e1] and n2 = graph_ok_endpoints[OF ok e2]
  have old: "\<And>a b. (a, b) \<in> fst ` set (edges G) \<Longrightarrow> a \<in> set (nodes G) \<and> b \<in> set (nodes G)"
    using ok by (force simp: graph_ok_def list_all_iff)
  define B0 where "B0 = filter (\<lambda>p. fst p \<notin> set [e1, e2]) (edges G)"
  have sub: "fst ` set B0 \<subseteq> fst ` set (edges G)" by (auto simp: B0_def)
  have k: "(a, X) \<notin> fst ` set B0" "(X, a) \<notin> fst ` set B0"
          "(a, Y) \<notin> fst ` set B0" "(Y, a) \<notin> fst ` set B0" for a
    using old X Y sub by blast+
  have ne: "fst e1 \<noteq> X" "fst e1 \<noteq> Y" "snd e1 \<noteq> X" "snd e1 \<noteq> Y"
           "fst e2 \<noteq> X" "fst e2 \<noteq> Y" "snd e2 \<noteq> X" "snd e2 \<noteq> Y"
    using n1 n2 X Y by auto
  define G0 where "G0 = G\<lparr>edges := B0\<rparr>"
  have g0: "remove_edges_from G [e1, e2] = G0"
    by (simp add: remove_edges_from_def G0_def B0_def)
  define G1 where "G1 = G\<lparr>nodes := nodes G @ [X], edges := B0 @ [((fst e1, X), no_attr)]\<rparr>"
  have s1: "add_edge G0 (fst e1) X = G1"
    unfolding G0_def G1_def using n1 X k by (subst add_edge_new_target) simp_all
  define G2 where "G2 = G\<lparr>nodes := nodes G @ [X],
      edges := B0 @ [((fst e1, X), no_attr), ((X, snd e1), no_attr)]\<rparr>"
  have s2: "add_edge G1 X (snd e1) = G2"
    unfolding G1_def G2_def using n1 X k ne by (subst add_edge_old_nodes) simp_all
  define G3 where "G3 = G\<lparr>nodes := nodes G @ [X, Y],
      edges := B0 @ [((fst e1, X), no_attr), ((X, snd e1), no_attr), ((fst e2, Y), no_attr)]\<rparr>"
  have s3: "add_edge G2 (fst e2) Y = G3"
    unfolding G2_def G3_def using n2 Y XY k ne by (subst add_edge_new_target) simp_all
  define G4 where "G4 = G\<lparr>nodes := nodes G @ [X, Y],
      edges := B0 @ [((fst e1, X), no_attr), ((X, snd e1), no_attr), ((fst e2, Y), no_attr),
                     ((Y, snd e2), no_attr)]\<rparr>"
  have s4: "add_edge G3 Y (snd e2) = G4"
    unfolding G3_def G4_def using n2 Y XY k ne by (subst add_edge_old_nodes) simp_all
  define G5 where "G5 = G\<lparr>nodes := nodes G @ [X, Y],
      edges := B0 @ [((fst e1, X), no_attr), ((X, snd e1), no_attr), ((fst e2, Y), no_attr),
                     ((Y, snd e2), no_attr), ((X, Y), no_attr)]\<rparr>"
  have s5: "add_edge G4 X Y = G5"
    unfolding G4_def G5_def using XY k ne by (subst add_edge_old_nodes) simp_all
  show ?thesis
    unfolding g0 add_edges_from_def by (simp add: s1 s2 s3 s4 s5) (simp add: G5_def B0_def)
qed

lemma AddEdgeBetween_eq:
  assumes ok: "graph_ok G" and A: "has_edge G edgeA" and B: "has_edge G edgeB"
  defines "X \<equiv> max_list (nodes G) + 1" and "Y \<equiv> max_list (nodes G) + 2"
  defines "e1 \<equiv> fst (oriented G edgeA edgeB)" and "e2 \<equiv> snd (oriented G edgeA edgeB)"
  defines "a1 \<equiv> the (map_of (edges G) e1)" and "a2 \<equiv> the (map_of (edges G) e2)"
  shows "AddEdgeBetween G edgeA edgeB None r =
     Inr (G\<lparr>nodes := nodes G @ [X, Y],
            edges := filter (\<lambda>p. fst p \<notin> set [e1, e2]) (edges G) @
                     halves e1 X a1 (fst (random_random r)) @
                     halves e2 Y a2 (fst (random_random (after_draw a1 r))) @
                     [((X, Y), no_attr)]\<rparr>,
          after_draw a2 (after_draw a1 r))"
proof -
  have he: "has_edge G e1" "has_edge G e2"
    using A B by (auto simp: e1_def e2_def oriented_def)
  note n1 = graph_ok_endpoints[OF ok he(1)] and n2 = graph_ok_endpoints[OF ok he(2)]
  note nA = graph_ok_endpoints[OF ok A] and nB = graph_ok_endpoints[OF ok B]
  have nonempty: "nodes G \<noteq> []" using nA by auto
  have X: "X \<notin> set (nodes G)" and Y: "Y \<notin> set (nodes G)" and XY: "X \<noteq> Y"
    using max_list_fresh[of "nodes G"] by (auto simp: X_def Y_def)
  have old: "\<And>a b. (a, b) \<in> fst ` set (edges G) \<Longrightarrow> a \<in> set (nodes G) \<and> b \<in> set (nodes G)"
    using ok by (force simp: graph_ok_def list_all_iff)
  have k: "(a, X) \<notin> fst ` set (edges G)" "(X, a) \<notin> fst ` set (edges G)"
          "(a, Y) \<notin> fst ` set (edges G)" "(Y, a) \<notin> fst ` set (edges G)" for a
    using old X Y by blast+
  have ne: "fst e1 \<noteq> X" "fst e1 \<noteq> Y" "snd e1 \<noteq> X" "snd e1 \<noteq> Y"
           "fst e2 \<noteq> X" "fst e2 \<noteq> Y" "snd e2 \<noteq> X" "snd e2 \<noteq> Y"
    using n1 n2 X Y by auto
  define B0 where "B0 = filter (\<lambda>p. fst p \<notin> set [e1, e2]) (edges G)"
  have kB: "(a, X) \<notin> fst ` set B0" "(X, a) \<notin> fst ` set B0"
           "(a, Y) \<notin> fst ` set B0" "(Y, a) \<notin> fst ` set B0" for a
    using k[of a] by (auto simp: B0_def)
  define N2 where "N2 = G\<lparr>nodes := nodes G @ [X, Y],
           edges := B0 @ [((fst e1, X), no_attr), ((X, snd e1), no_attr),
                     ((fst e2, Y), no_attr), ((Y, snd e2), no_attr), ((X, Y), no_attr)]\<rparr>"
  have sp: "add_edges_from (remove_edges_from G [e1, e2])
           [(fst e1, X), (X, snd e1), (fst e2, Y), (Y, snd e2), (X, Y)] = N2"
    unfolding N2_def B0_def by (rule splice_edges[OF ok he X Y XY])
  define N3 where "N3 = N2\<lparr>edges := B0 @ halves e1 X a1 (fst (random_random r)) @
      [((fst e2, Y), no_attr), ((Y, snd e2), no_attr), ((X, Y), no_attr)]\<rparr>"
  have r1: "redistribute N2 e1 X (length_attr a1) (prob_attr a1) r = Inr (N3, after_draw a1 r)"
    unfolding N3_def
    by (rule redistribute_eq) (use kB ne XY in \<open>auto simp: N2_def\<close>)
  have r2: "redistribute N3 e2 Y (length_attr a2) (prob_attr a2) (after_draw a1 r) =
      Inr (N3\<lparr>edges := (B0 @ halves e1 X a1 (fst (random_random r))) @
            halves e2 Y a2 (fst (random_random (after_draw a1 r))) @ [((X, Y), no_attr)]\<rparr>,
           after_draw a2 (after_draw a1 r))"
    by (rule redistribute_eq) (use kB ne XY in \<open>auto simp: N3_def halves_def\<close>)
  have hp: "has_path G (snd edgeB) (fst edgeA) = Inr (reachable G (snd edgeB) (fst edgeA))"
    using nA nB by (simp add: has_path_def)
  have sel: "(if reachable G (snd edgeB) (fst edgeA) then edgeB else edgeA) = e1"
            "(if reachable G (snd edgeB) (fst edgeA) then edgeA else edgeB) = e2"
    by (auto simp: e1_def e2_def oriented_def)
  show ?thesis
    unfolding AddEdgeBetween_def
    by (simp add: nonempty hp ebind_def Let_def sel get_edge_the[OF he(1)] get_edge_the[OF he(2)]
        a1_def[symmetric] a2_def[symmetric] X_def[symmetric] Y_def[symmetric] sp r1 r2)
      (simp add: N3_def N2_def B0_def)
qed

lemma upto_1_1: "[1..(1::int)] = [1]"
  by (simp add: upto.simps)

lemma sim2: "simulateBetaSplitting lg 2 beta r =
   Some (Inr (\<lparr>nodes = [3, 1, 2], label = (\<lambda>_. None)(3 \<mapsto> 2),
                edges = [((3, 1), no_attr), ((3, 2), no_attr)]\<rparr>, next_pick r))"
  apply (simp add: simulateBetaSplitting_def sim_init_def set_label_def add_node_def
      empty_graph_def ebind_def)
  apply (subst sim_loop.simps)
  apply (simp add: sim_step_def get_label_def ebind_def computeProb_def upto_1_1
      random_choices1_def add_child_def add_edge_def add_node_def has_edge_def Let_def
      not_le)
  apply (subst sim_loop.simps)
  apply simp
  done

lemma out2: "main lg 2 beta 0 None ''el'' r = Some (Inr (''3 1'' @ crlf @ ''3 2''))"
  by (simp add: main_def sim2 GenerateNetwork_def OutputNetwork_def edge_list_def successors_def
      join_lines_def str_int_def)


text \<open>
  C8: with two tips and no reticulation every run builds the tree with root 3 and leaves 1
  and 2, three nodes in all, and prints the edge list whose lines are "3 1" and "3 2".
\<close>

theorem two_tips_scenario:
  "\<exists>T r'. simulateBetaSplitting lg 2 0 r = Some (Inr (T, r')) \<and>
      length (nodes T) = 3 \<and> set (nodes T) = {1, 2, 3} \<and> roots T = [3] \<and> leaves T = [1, 2] \<and>
      edge_list T = [(3, 1), (3, 2)] \<and>
      GenerateNetwork T 0 None r' = Some (Inr (T, r')) \<and>
      main lg 2 0 0 None ''el'' r = Some (Inr (''3 1'' @ crlf @ ''3 2'')) \<and>
      set (lines_of (''3 1'' @ crlf @ ''3 2'')) = {''3 1'', ''3 2''}"
proof -
  let ?T = "\<lparr>nodes = [3, 1, 2], label = (\<lambda>_. None)(3 \<mapsto> 2),
              edges = [((3, 1), no_attr), ((3, 2), no_attr)]\<rparr>"
  have "simulateBetaSplitting lg 2 0 r = Some (Inr (?T, next_pick r))" by (rule sim2)
  moreover have "length (nodes ?T) = 3" "set (nodes ?T) = {1, 2, 3}" by auto
  moreover have "roots ?T = [3]" "leaves ?T = [1, 2]" "edge_list ?T = [(3, 1), (3, 2)]"
    by (simp_all add: roots_def leaves_def edge_list_def predecessors_def successors_def)
  moreover have "GenerateNetwork ?T 0 None (next_pick r) = Some (Inr (?T, next_pick r))"
    by (simp add: GenerateNetwork_def)
  moreover have "set (lines_of (''3 1'' @ crlf @ ''3 2'')) = {''3 1'', ''3 2''}"
    by (simp add: lines_of_def crlf_def)
  ultimately show ?thesis using out2[of lg 0 r] by blast
qed

lemma keys_halves: "map fst (halves e x a u) = [(fst e, x), (x, snd e)]"
  by (simp add: halves_def)

lemma graph_ok_Field: "graph_ok G \<Longrightarrow> v \<notin> set (nodes G) \<Longrightarrow> v \<notin> Field (edge_set G)"
  by (force simp: graph_ok_def list_all_iff Field_def edge_set_def)

lemma has_edge_edge_set: "has_edge G e \<longleftrightarrow> e \<in> edge_set G"
  by (simp add: has_edge_def edge_set_def)

lemma oriented_cases:
  "oriented G a b = (a, b) \<or> oriented G a b = (b, a)"
  by (simp add: oriented_def)

lemma oriented_no_back:
  assumes dag: "is_dag G" and A: "has_edge G a" and B: "has_edge G b"
  shows "(snd (snd (oriented G a b)), fst (fst (oriented G a b))) \<notin> (edge_set G)\<^sup>*"
proof (cases "reachable G (snd b) (fst a)")
  case True
  have "(snd a, fst b) \<notin> (edge_set G)\<^sup>*"
    by (rule acyclic_no_back[of _ "fst a" _ "fst b" "snd b"])
      (use dag A B True in \<open>auto simp: is_dag_iff has_edge_edge_set reachable_iff\<close>)
  with True show ?thesis by (simp add: oriented_def)
next
  case False
  then show ?thesis by (simp add: oriented_def reachable_iff)
qed

lemma AddEdgeBetween_shape:
  assumes ok: "graph_ok G" and A: "has_edge G a" and B: "has_edge G b"
  shows "\<exists>G' r'. AddEdgeBetween G a b None r = Inr (G', r') \<and>
           nodes G' = nodes G @ [max_list (nodes G) + 1, max_list (nodes G) + 2] \<and>
           label G' = label G \<and>
           map fst (edges G') = spliced_keys G a b"
  unfolding AddEdgeBetween_eq[OF ok A B]
  by (simp add: spliced_keys_def Let_def keys_halves filter_map comp_def)

lemma spliced_ok:
  assumes ok: "graph_ok G" and A: "has_edge G a" and B: "has_edge G b"
    and n: "nodes G' = nodes G @ [max_list (nodes G) + 1, max_list (nodes G) + 2]"
    and k: "map fst (edges G') = spliced_keys G a b"
  shows "graph_ok G'"
proof -
  define X where "X = max_list (nodes G) + 1"
  define Y where "Y = max_list (nodes G) + 2"
  define e1 where "e1 = fst (oriented G a b)"
  define e2 where "e2 = snd (oriented G a b)"
  have he: "has_edge G e1" "has_edge G e2"
    using A B oriented_cases[of G a b] by (auto simp: e1_def e2_def)
  note n1 = graph_ok_endpoints[OF ok he(1)] and n2 = graph_ok_endpoints[OF ok he(2)]
  have X: "X \<notin> set (nodes G)" and Y: "Y \<notin> set (nodes G)" and XY: "X \<noteq> Y"
    using max_list_fresh[of "nodes G"] by (auto simp: X_def Y_def)
  have old: "\<And>u v. (u, v) \<in> set (map fst (edges G)) \<Longrightarrow> u \<in> set (nodes G) \<and> v \<in> set (nodes G)"
    using ok by (force simp: graph_ok_def list_all_iff)
  have keys: "map fst (edges G') = filter (\<lambda>e. e \<notin> set [e1, e2]) (map fst (edges G)) @
         [(fst e1, X), (X, snd e1), (fst e2, Y), (Y, snd e2), (X, Y)]"
    by (simp add: k spliced_keys_def Let_def X_def Y_def e1_def e2_def)
  have nodes': "nodes G' = nodes G @ [X, Y]" by (simp add: n X_def Y_def)
  have d1: "distinct (nodes G')" using ok X Y XY by (auto simp: nodes' graph_ok_def)
  have d2: "distinct (map fst (edges G'))"
    unfolding keys using ok n1 n2 X Y XY old by (auto simp: graph_ok_def)
  have d3: "\<forall>e\<in>set (map fst (edges G')). fst e \<in> set (nodes G') \<and> snd e \<in> set (nodes G')"
    unfolding keys nodes' using n1 n2 old by auto
  from d1 d2 d3 show ?thesis by (auto simp: graph_ok_def list_all_iff)
qed

lemma spliced_dag:
  assumes ok: "graph_ok G" and dag: "is_dag G" and A: "has_edge G a" and B: "has_edge G b"
    and k: "map fst (edges G') = spliced_keys G a b"
  shows "is_dag G'"
proof -
  define X where "X = max_list (nodes G) + 1"
  define Y where "Y = max_list (nodes G) + 2"
  define e1 where "e1 = fst (oriented G a b)"
  define e2 where "e2 = snd (oriented G a b)"
  have he: "has_edge G e1" "has_edge G e2"
    using A B oriented_cases[of G a b] by (auto simp: e1_def e2_def)
  have X: "X \<notin> set (nodes G)" and Y: "Y \<notin> set (nodes G)" and XY: "X \<noteq> Y"
    using max_list_fresh[of "nodes G"] by (auto simp: X_def Y_def)
  have es: "edge_set G' = (edge_set G - {(fst e1, snd e1), (fst e2, snd e2)}) \<union>
      {(fst e1, X), (X, snd e1), (fst e2, Y), (Y, snd e2), (X, Y)}"
    unfolding edge_set_def k
    by (auto simp: spliced_keys_def Let_def X_def Y_def e1_def e2_def)
  have "acyclic (edge_set G')"
    unfolding es
  proof (rule splice_acyclic)
    show "acyclic (edge_set G)" using dag by (simp add: is_dag_iff)
    show "(fst e1, snd e1) \<in> edge_set G" "(fst e2, snd e2) \<in> edge_set G"
      using he by (simp_all add: has_edge_edge_set)
    show "X \<notin> Field (edge_set G)" "Y \<notin> Field (edge_set G)"
      using graph_ok_Field[OF ok] X Y by auto
    show "X \<noteq> Y" by (rule XY)
    show "(snd e2, fst e1) \<notin> (edge_set G)\<^sup>*"
      unfolding e1_def e2_def by (rule oriented_no_back[OF dag A B])
  qed
  then show ?thesis by (simp add: is_dag_iff)
qed

lemma in_edge_list: "e \<in> set (edge_list G) \<Longrightarrow> has_edge G e"
  by (force simp: edge_list_def successors_def has_edge_def)

lemma random_choice_in: "random_choice xs r = Inr (x, r') \<Longrightarrow> x \<in> set xs"
  by (auto simp: random_choice_def split: if_splits)

lemma neighbour_edge:
  assumes "ebind (neighbours G cur) (\<lambda>ns. random_choice ns r) = Inr (nxt, r1)"
  shows "has_edge G (cur, nxt) \<or> has_edge G (nxt, cur)"
proof -
  from assms have "random_choice (successors G cur @ predecessors G cur) r = Inr (nxt, r1)"
    by (auto simp: ebind_def neighbours_def split: if_splits)
  then have "nxt \<in> set (successors G cur) \<union> set (predecessors G cur)"
    using random_choice_in by fastforce
  then show ?thesis
    by (auto simp: set_successors set_predecessors has_edge_edge_set)
qed

lemmas walk_induct = walk.raw_induct[rotated -1, consumes 1, case_names step]

lemmas select_local_induct = select_local.raw_induct[rotated -1, consumes 1, case_names step]

lemma walk_edge_aux:
  assumes "walk G sp ms k prev cur r = Some y"
  shows "has_edge G (prev, cur) \<or> has_edge G (cur, prev) \<Longrightarrow> y = Inr (p, c, r') \<Longrightarrow>
     has_edge G (p, c) \<or> has_edge G (c, p)"
  using assms
proof (induction arbitrary: p c r' rule: walk_induct)
  case (step walk' G sp ms k prev cur r y)
  show ?case
  proof (cases "ms = None \<or> k \<le> the ms")
    case False
    with step.hyps step.prems show ?thesis by auto
  next
    case True
    with step.hyps step.prems(2) obtain nxt r1 where
      nb: "ebind (neighbours G cur) (\<lambda>ns. random_choice ns r) = Inr (nxt, r1)"
      by (auto split: sum.splits)
    note e = neighbour_edge[OF nb]
    obtain u r2 where rr: "random_random r1 = (u, r2)" by (cases "random_random r1")
    show ?thesis
    proof (cases "u < sp")
      case stop: True
      with True step.hyps step.prems(2) nb rr have "p = cur" "c = nxt" by auto
      with e show ?thesis by simp
    next
      case go: False
      with True step.hyps nb rr have "walk' G sp ms (k + 1) cur nxt r2 = Some y" by auto
      from step.IH[OF this e step.prems(2)] show ?thesis .
    qed
  qed
qed

lemma walk_edge:
  assumes "walk G sp ms k prev cur r = Some (Inr (p, c, r'))"
    and "has_edge G (prev, cur) \<or> has_edge G (cur, prev)"
  shows "has_edge G (p, c) \<or> has_edge G (c, p)"
  using walk_edge_aux[OF assms(1) assms(2) refl] .

lemma attempt_edges:
  assumes "attempt G sp ms r = Some (Inr (e1, e2, r'))"
  shows "has_edge G e1 \<and> has_edge G e2"
proof -
  from assms obtain r1 where c1: "random_choice (edge_list G) r = Inr (e1, r1)"
    by (auto simp: attempt_def Let_def split: sum.splits option.splits prod.splits)
  then have h1: "has_edge G e1" using random_choice_in[of "edge_list G"] in_edge_list by blast
  from assms c1 obtain prev r2 where c2: "random_choice [fst e1, snd e1] r1 = Inr (prev, r2)"
    by (auto simp: attempt_def Let_def split: sum.splits option.splits prod.splits)
  define cur where "cur = (if fst e1 = prev then snd e1 else fst e1)"
  from c2 have "prev = fst e1 \<or> prev = snd e1" using random_choice_in by fastforce
  then have start: "has_edge G (prev, cur) \<or> has_edge G (cur, prev)"
    using h1 by (cases e1) (auto simp: cur_def)
  from assms c1 c2 obtain p c where
    w: "walk G sp ms 1 prev cur r2 = Some (Inr (p, c, r'))"
    and e2: "e2 = (if has_edge G (p, c) then (p, c) else (c, p))"
    by (auto simp: attempt_def Let_def cur_def split: sum.splits option.splits prod.splits)
  from walk_edge[OF w start] e2 have "has_edge G e2" by auto
  with h1 show ?thesis by simp
qed

lemma select_local_edges_aux:
  assumes "select_local G sp ms mt k found r = Some y"
  shows "\<forall>a b. found = Some (a, b) \<longrightarrow> has_edge G a \<and> has_edge G b \<Longrightarrow>
     y = Inr (e1, e2, r') \<Longrightarrow> has_edge G e1 \<and> has_edge G e2"
  using assms
proof (induction arbitrary: e1 e2 r' rule: select_local_induct)
  case (step sel G sp ms mt k found r y)
  show ?case
  proof (cases "mt = None \<or> k \<le> the mt")
    case False
    with step.hyps step.prems show ?thesis by (auto split: option.splits)
  next
    case True
    with step.hyps step.prems(2) obtain a b r1 where
      at: "attempt G sp ms r = Some (Inr (a, b, r1))"
      by (auto split: option.splits sum.splits)
    note h = attempt_edges[OF at]
    show ?thesis
    proof (cases "a \<noteq> b")
      case True
      with \<open>mt = None \<or> k \<le> the mt\<close> step.hyps step.prems(2) at h show ?thesis by auto
    next
      case False
      with \<open>mt = None \<or> k \<le> the mt\<close> step.hyps at
      have "sel G sp ms mt (k + 1) (Some (a, b)) r1 = Some y" by auto
      from step.IH[OF this _ step.prems(2)] h show ?thesis by auto
    qed
  qed
qed

lemma select_local_edges:
  assumes "select_local G sp ms mt k None r = Some (Inr (e1, e2, r'))"
  shows "has_edge G e1 \<and> has_edge G e2"
  using select_local_edges_aux[OF assms _ refl] by simp

lemma AddEdgeUniform_edges:
  assumes "np_random_choice2 (length (edge_list G)) r = Inr ((i, j), r1)"
  shows "has_edge G (edge_list G ! i) \<and> has_edge G (edge_list G ! j)"
proof -
  from assms have "i < length (edge_list G)" "j < length (edge_list G)"
    by (auto simp: np_random_choice2_def split: if_splits)
  then show ?thesis using in_edge_list nth_mem by blast
qed

text \<open>What one insertion keeps, whichever selector picked the two edges.\<close>

lemma insertion_keeps:
  assumes ok: "graph_ok G" and A: "has_edge G a" and B: "has_edge G b"
    and res: "AddEdgeBetween G a b None r = Inr (G', r')"
  shows "graph_ok G' \<and> (is_dag G \<longrightarrow> is_dag G')"
proof -
  from AddEdgeBetween_shape[OF ok A B, of r] res
  have n: "nodes G' = nodes G @ [max_list (nodes G) + 1, max_list (nodes G) + 2]"
    and k: "map fst (edges G') = spliced_keys G a b" by auto
  show ?thesis using spliced_ok[OF ok A B n k] spliced_dag[OF ok _ A B k] by blast
qed

lemma AddEdgeUniform_keeps:
  assumes ok: "graph_ok G" and res: "AddEdgeUniform G None r = Inr (G', r')"
  shows "graph_ok G' \<and> (is_dag G \<longrightarrow> is_dag G')"
proof -
  from res obtain i j r1 where c: "np_random_choice2 (length (edge_list G)) r = Inr ((i, j), r1)"
    and ab: "AddEdgeBetween G (edge_list G ! i) (edge_list G ! j) None r1 = Inr (G', r')"
    by (auto simp: AddEdgeUniform_def Let_def ebind_def split: sum.splits)
  from AddEdgeUniform_edges[OF c] insertion_keeps[OF ok _ _ ab] show ?thesis by blast
qed

lemma AddEdgeLocal_keeps:
  assumes ok: "graph_ok G" and res: "AddEdgeLocal G None sp ms mt r = Some (Inr (G', r'))"
  shows "graph_ok G' \<and> (is_dag G \<longrightarrow> is_dag G')"
proof -
  from res obtain a b r1 where s: "select_local G sp ms mt 1 None r = Some (Inr (a, b, r1))"
    and ab: "AddEdgeBetween G a b None r1 = Inr (G', r')"
    by (auto simp: AddEdgeLocal_def split: option.splits sum.splits)
  from select_local_edges[OF s] insertion_keeps[OF ok _ _ ab] show ?thesis by blast
qed

lemma insertions_keep:
  assumes "insertions k method G r = Some (Inr (G', r'))" and "graph_ok G"
  shows "graph_ok G' \<and> (is_dag G \<longrightarrow> is_dag G')"
  using assms
proof (induction k arbitrary: G r)
  case 0
  then show ?case by simp
next
  case (Suc k)
  from Suc.prems(1) obtain G1 r1 where
    one: "(case method of None \<Rightarrow> Some (AddEdgeUniform G None r)
            | Some sp \<Rightarrow> AddEdgeLocal G None sp None None r) = Some (Inr (G1, r1))"
    and rest: "insertions k method G1 r1 = Some (Inr (G', r'))"
    by (auto split: option.splits sum.splits)
  have k1: "graph_ok G1 \<and> (is_dag G \<longrightarrow> is_dag G1)"
  proof (cases "method")
    case None
    with one show ?thesis using AddEdgeUniform_keeps[OF Suc.prems(2)] by auto
  next
    case (Some sp)
    with one show ?thesis using AddEdgeLocal_keeps[OF Suc.prems(2)] by auto
  qed
  with Suc.IH[OF rest] show ?case by blast
qed

lemma set_edge_list: "graph_ok G \<Longrightarrow> set (edge_list G) = edge_set G"
  by (force simp: edge_list_def set_successors graph_ok_def list_all_iff edge_set_def)

lemma AddEdgeUniform_total:
  assumes ok: "graph_ok G" and ne: "edges G \<noteq> []"
  shows "\<exists>G' r'. AddEdgeUniform G None r = Inr (G', r') \<and> edges G' \<noteq> []"
proof -
  have "set (edge_list G) \<noteq> {}" using ne by (simp add: set_edge_list[OF ok] edge_set_def)
  then have len: "length (edge_list G) \<noteq> 0" by simp
  define i where "i = picks r 0 mod length (edge_list G)"
  define j where "j = picks r 1 mod length (edge_list G)"
  have c: "np_random_choice2 (length (edge_list G)) r = Inr ((i, j), next_pick (next_pick r))"
    using len by (simp add: np_random_choice2_def i_def j_def)
  note h = AddEdgeUniform_edges[OF c]
  from AddEdgeBetween_shape[OF ok conjunct1[OF h] conjunct2[OF h], of "next_pick (next_pick r)"]
  obtain G' r' where
    ab: "AddEdgeBetween G (edge_list G ! i) (edge_list G ! j) None (next_pick (next_pick r)) =
         Inr (G', r')"
    and k: "map fst (edges G') = spliced_keys G (edge_list G ! i) (edge_list G ! j)" by blast
  have "AddEdgeUniform G None r = Inr (G', r')"
    using c ab by (simp add: AddEdgeUniform_def Let_def ebind_def)
  moreover have "edges G' \<noteq> []"
  proof
    assume "edges G' = []"
    then have "map fst (edges G') = []" by simp
    then show False unfolding k by (simp add: spliced_keys_def Let_def)
  qed
  ultimately show ?thesis by blast
qed

lemma insertions_uniform_total:
  assumes "graph_ok G" and "edges G \<noteq> []"
  shows "\<exists>G' r'. insertions k None G r = Some (Inr (G', r'))"
  using assms
proof (induction k arbitrary: G r)
  case 0
  then show ?case by simp
next
  case (Suc k)
  from AddEdgeUniform_total[OF Suc.prems, of r] obtain G1 r1 where
    one: "AddEdgeUniform G None r = Inr (G1, r1)" and ne: "edges G1 \<noteq> []" by blast
  from AddEdgeUniform_keeps[OF Suc.prems(1) one] have "graph_ok G1" by simp
  from Suc.IH[OF this ne, of r1] one show ?case by simp
qed

lemma has_path_reachable:
  "graph_ok G \<Longrightarrow> has_edge G a \<Longrightarrow> has_edge G b \<Longrightarrow>
   has_path G (snd b) (fst a) = Inr (reachable G (snd b) (fst a))"
  using graph_ok_endpoints[of G a] graph_ok_endpoints[of G b] by (simp add: has_path_def)

lemma two_tip_tree_ok: "graph_ok two_tip_tree"
  by (simp add: graph_ok_def two_tip_tree_def)

lemma two_tip_tree_dag: "is_dag two_tip_tree"
  by (simp add: is_dag_def reachable_def two_tip_tree_def successors_def)

lemma two_tip_tree_edges: "has_edge two_tip_tree (3, 1)" "has_edge two_tip_tree (3, 2)"
  by (simp_all add: has_edge_def two_tip_tree_def)

text \<open>
  C1: on a graph without a directed cycle, an insertion between two distinct edges exchanges
  the two edges when the head of the second reaches the tail of the first, replaces them by
  their halves and the connector, and leaves a graph without a directed cycle; so does
  every run of \<open>GenerateNetwork\<close>, for every number of insertions and either selector.
\<close>

theorem insertion_keeps_acyclic:
  assumes "graph_ok G" and "is_dag G"
  shows "(has_edge G edgeA \<and> has_edge G edgeB \<and> edgeA \<noteq> edgeB \<longrightarrow>
           has_path G (snd edgeB) (fst edgeA) = Inr (reachable G (snd edgeB) (fst edgeA)) \<and>
           (\<exists>G' r'. AddEdgeBetween G edgeA edgeB None r = Inr (G', r') \<and>
              map fst (edges G') = spliced_keys G edgeA edgeB \<and> graph_ok G' \<and> is_dag G')) \<and>
         (\<forall>G' r'. GenerateNetwork G n method r = Some (Inr (G', r')) \<longrightarrow>
              graph_ok G' \<and> is_dag G')"
proof (intro conjI impI allI)
  assume h: "has_edge G edgeA \<and> has_edge G edgeB \<and> edgeA \<noteq> edgeB"
  then have A: "has_edge G edgeA" and B: "has_edge G edgeB" by simp_all
  show "has_path G (snd edgeB) (fst edgeA) = Inr (reachable G (snd edgeB) (fst edgeA))"
    by (rule has_path_reachable[OF assms(1) A B])
  from AddEdgeBetween_shape[OF assms(1) A B, of r] obtain G' r' where
    res: "AddEdgeBetween G edgeA edgeB None r = Inr (G', r')"
    and k: "map fst (edges G') = spliced_keys G edgeA edgeB" by blast
  from insertion_keeps[OF assms(1) A B res] assms(2) res k
  show "\<exists>G' r'. AddEdgeBetween G edgeA edgeB None r = Inr (G', r') \<and>
      map fst (edges G') = spliced_keys G edgeA edgeB \<and> graph_ok G' \<and> is_dag G'"
    by blast
next
  fix G' r' assume "GenerateNetwork G n method r = Some (Inr (G', r'))"
  then have "insertions (nat n) method G r = Some (Inr (G', r'))"
    by (simp add: GenerateNetwork_def)
  from insertions_keep[OF this assms(1)] assms(2) show "graph_ok G'" "is_dag G'" by simp_all
qed

theorem insertion_keeps_acyclic_witness:
  "graph_ok two_tip_tree \<and> is_dag two_tip_tree \<and>
   has_edge two_tip_tree (3, 1) \<and> has_edge two_tip_tree (3, 2) \<and>
   (\<exists>G' r'. AddEdgeBetween two_tip_tree (3, 1) (3, 2) None zero_rng = Inr (G', r') \<and>
      map fst (edges G') = [(3, 4), (4, 1), (3, 5), (5, 2), (4, 5)] \<and> is_dag G') \<and>
   (\<exists>G' r'. GenerateNetwork two_tip_tree 3 None zero_rng = Some (Inr (G', r')) \<and> is_dag G')"
proof -
  note t = insertion_keeps_acyclic[OF two_tip_tree_ok two_tip_tree_dag,
      of "(3, 1)" "(3, 2)" zero_rng 3 None]
  have keys: "spliced_keys two_tip_tree (3, 1) (3, 2) = [(3, 4), (4, 1), (3, 5), (5, 2), (4, 5)]"
    by (simp add: spliced_keys_def oriented_def reachable_def two_tip_tree_def successors_def
        max_list_def Let_def)
  from insertions_uniform_total[OF two_tip_tree_ok, of 3 zero_rng] obtain G3 r3 where
    g: "GenerateNetwork two_tip_tree 3 None zero_rng = Some (Inr (G3, r3))"
    by (auto simp: GenerateNetwork_def two_tip_tree_def)
  from t g have d3: "is_dag G3" by blast
  have ne: "(3, 1) \<noteq> ((3, 2) :: edge)" by simp
  from t two_tip_tree_edges ne obtain G1 r1 where
    one: "AddEdgeBetween two_tip_tree (3, 1) (3, 2) None zero_rng = Inr (G1, r1)"
      "map fst (edges G1) = spliced_keys two_tip_tree (3, 1) (3, 2)" "is_dag G1"
    by blast
  from one(2) keys have k1: "map fst (edges G1) = [(3, 4), (4, 1), (3, 5), (5, 2), (4, 5)]"
    by simp
  have p1: "\<exists>G' r'. AddEdgeBetween two_tip_tree (3, 1) (3, 2) None zero_rng = Inr (G', r') \<and>
      map fst (edges G') = [(3, 4), (4, 1), (3, 5), (5, 2), (4, 5)] \<and> is_dag G'"
    by (intro exI[of _ G1] exI[of _ r1] conjI one(1) k1 one(3))
  have p2: "\<exists>G' r'. GenerateNetwork two_tip_tree 3 None zero_rng = Some (Inr (G', r')) \<and>
      is_dag G'"
    by (intro exI[of _ G3] exI[of _ r3] conjI g d3)
  show ?thesis
    by (intro conjI two_tip_tree_ok two_tip_tree_dag two_tip_tree_edges p1 p2)
qed

lemma powi_exp_less:
  fixes x :: real
  assumes "2 powi a \<le> x" "x < 2 powi b"
  shows "a < b"
proof (rule ccontr)
  assume "\<not> a < b"
  then have "b \<le> a" by simp
  then have "(2::real) powi b \<le> 2 powi a" by (intro power_int_increasing) simp_all
  with assms show False by simp
qed

lemma exponent_upto_eq:
  assumes "2 powi e \<le> x" "x < 2 powi (e + 1)" "- 1022 \<le> e" "e \<le> int k - 1022"
  shows "exponent_upto k x = e"
  using assms(4)
proof (induction k)
  case 0
  with assms(3) show ?case by simp
next
  case (Suc k)
  show ?case
  proof (cases "2 powi (int (Suc k) - 1022) \<le> x")
    case True
    from powi_exp_less[OF True assms(2)] have "int (Suc k) - 1022 < e + 1" .
    with Suc.prems True show ?thesis by simp
  next
    case False
    then have "x < 2 powi (int (Suc k) - 1022)" by simp
    from powi_exp_less[OF assms(1) this] have "e \<le> int k - 1022" by simp
    from Suc.IH[OF this] False show ?thesis by simp
  qed
qed

lemma double_exponent_eq:
  assumes "2 powi e \<le> \<bar>x\<bar>" "\<bar>x\<bar> < 2 powi (e + 1)" "- 1022 \<le> e" "e \<le> 1023"
  shows "double_exponent x = e"
  unfolding double_exponent_def using assms by (intro exponent_upto_eq) simp_all

lemma round_double_eq:
  assumes "double_exponent x = e" "round_half_even (x / 2 powi (e - 52)) = m"
  shows "round_double x = of_int m * 2 powi (e - 52)"
  using assms by (simp add: round_double_def)

lemma random_random_range: "0 \<le> fst (random_random r) \<and> fst (random_random r) < 1"
  by (simp add: random_random_def)

lemma rounding_u: "fst (random_random rounding_rng) = 1713243722919086 / 2 ^ 53"
  by (simp add: random_random_def rounding_rng_def)

lemma rounding_l1: "float_mul (1713243722919086 / 2 ^ 53) nine_tenths = 3083838701254355 / 2 ^ 54"
proof -
  let ?x = "(1713243722919086 / 2 ^ 53) * nine_tenths :: real"
  have e: "double_exponent ?x = - 3"
    by (rule double_exponent_eq) (simp_all add: nine_tenths_def power_int_minus)
  have m: "round_half_even (?x / 2 powi (- 3 - 52)) = 6167677402508710"
    by (simp add: round_half_even_def nine_tenths_def power_int_minus Let_def)
  show ?thesis
    unfolding float_mul_def round_double_eq[OF e m] by (simp add: power_int_minus)
qed

lemma rounding_l2: "float_sub nine_tenths (3083838701254355 / 2 ^ 54) = 1641139994659929 / 2 ^ 51"
proof -
  let ?x = "nine_tenths - 3083838701254355 / 2 ^ 54 :: real"
  have e: "double_exponent ?x = - 1"
    by (rule double_exponent_eq) (simp_all add: nine_tenths_def power_int_minus)
  have m: "round_half_even (?x / 2 powi (- 1 - 52)) = 6564559978639716"
    by (simp add: round_half_even_def nine_tenths_def power_int_minus Let_def)
  show ?thesis
    unfolding float_sub_def round_double_eq[OF e m] by (simp add: power_int_minus)
qed

lemma rounding_sum: "(3083838701254355 / 2 ^ 54 + 1641139994659929 / 2 ^ 51 :: real) \<noteq> nine_tenths"
  by (simp add: nine_tenths_def)

lemma map_of_after:
  "k \<notin> fst ` set B \<Longrightarrow> map_of (B @ C) k = map_of C k"
  by (simp add: map_add_def map_of_eq_None_iff[THEN iffD2] split: option.splits)

lemma round_half_even_near: "\<bar>of_int (round_half_even y) - y\<bar> \<le> 1 / 2"
proof -
  have "of_int \<lfloor>y\<rfloor> \<le> y" "y < of_int \<lfloor>y\<rfloor> + 1" by linarith+
  then show ?thesis by (auto simp: round_half_even_def Let_def)
qed

lemma round_double_near: "\<bar>round_double x - x\<bar> \<le> 2 powi (double_exponent x - 53)"
proof -
  define ulp :: real where "ulp = 2 powi (double_exponent x - 52)"
  have pos: "0 < ulp" by (simp add: ulp_def)
  have half: "ulp / 2 = 2 powi (double_exponent x - 53)"
  proof -
    have "(2::real) powi (double_exponent x - 52) = 2 powi (double_exponent x - 53 + 1)" by simp
    also have "\<dots> = 2 powi (double_exponent x - 53) * 2"
      by (subst power_int_add) simp_all
    finally show ?thesis by (simp add: ulp_def)
  qed
  have "round_double x - x = (of_int (round_half_even (x / ulp)) - x / ulp) * ulp"
    using pos by (simp add: round_double_def ulp_def[symmetric] algebra_simps)
  then have "\<bar>round_double x - x\<bar> = \<bar>of_int (round_half_even (x / ulp)) - x / ulp\<bar> * ulp"
    using pos by (simp add: abs_mult)
  also have "\<dots> \<le> (1 / 2) * ulp"
    using round_half_even_near[of "x / ulp"] pos by (intro mult_right_mono) simp_all
  finally show ?thesis using half by simp
qed

lemma AddEdgeBetween_attrs:
  assumes ok: "graph_ok G" and A: "has_edge G edgeA" and B: "has_edge G edgeB"
    and orient: "oriented G edgeA edgeB = (e1, e2)"
    and g1: "get_edge G e1 = Inr a1" and g2: "get_edge G e2 = Inr a2"
    and X: "X = max_list (nodes G) + 1" and Y: "Y = max_list (nodes G) + 2"
    and u1: "u1 = fst (random_random r)"
    and u2: "u2 = fst (random_random (after_draw a1 r))"
  shows "\<exists>G' r'. AddEdgeBetween G edgeA edgeB None r = Inr (G', r') \<and>
      map_of (edges G') (fst e1, X) =
        Some \<lparr>length_attr = map_option (\<lambda>l. float_mul u1 l) (length_attr a1), prob_attr = None\<rparr> \<and>
      map_of (edges G') (X, snd e1) =
        Some \<lparr>length_attr = map_option (\<lambda>l. float_sub l (float_mul u1 l)) (length_attr a1),
              prob_attr = prob_attr a1\<rparr> \<and>
      map_of (edges G') (fst e2, Y) =
        Some \<lparr>length_attr = map_option (\<lambda>l. float_mul u2 l) (length_attr a2), prob_attr = None\<rparr> \<and>
      map_of (edges G') (Y, snd e2) =
        Some \<lparr>length_attr = map_option (\<lambda>l. float_sub l (float_mul u2 l)) (length_attr a2),
              prob_attr = prob_attr a2\<rparr> \<and>
      map_of (edges G') (X, Y) = Some no_attr"
proof -
  have he: "has_edge G e1" "has_edge G e2"
    using A B orient oriented_cases[of G edgeA edgeB] by auto
  have e12: "fst (oriented G edgeA edgeB) = e1" "snd (oriented G edgeA edgeB) = e2"
    using orient by simp_all
  have a12: "the (map_of (edges G) e1) = a1" "the (map_of (edges G) e2) = a2"
    using g1 g2 get_edge_the[OF he(1)] get_edge_the[OF he(2)] by simp_all
  note n1 = graph_ok_endpoints[OF ok he(1)] and n2 = graph_ok_endpoints[OF ok he(2)]
  have fr: "X \<notin> set (nodes G)" "Y \<notin> set (nodes G)" "X \<noteq> Y"
    using max_list_fresh[of "nodes G"] by (auto simp: X Y)
  have old: "\<And>a b. (a, b) \<in> fst ` set (edges G) \<Longrightarrow> a \<in> set (nodes G) \<and> b \<in> set (nodes G)"
    using ok by (force simp: graph_ok_def list_all_iff)
  define B0 where "B0 = filter (\<lambda>p. fst p \<notin> set [e1, e2]) (edges G)"
  have sub: "fst ` set B0 \<subseteq> fst ` set (edges G)" by (auto simp: B0_def)
  have kB: "(a, X) \<notin> fst ` set B0" "(X, a) \<notin> fst ` set B0"
           "(a, Y) \<notin> fst ` set B0" "(Y, a) \<notin> fst ` set B0" for a
    using old fr sub by blast+
  have ne: "fst e1 \<noteq> X" "fst e1 \<noteq> Y" "snd e1 \<noteq> X" "snd e1 \<noteq> Y"
           "fst e2 \<noteq> X" "fst e2 \<noteq> Y" "snd e2 \<noteq> X" "snd e2 \<noteq> Y"
    using n1 n2 fr by auto
  define C where "C = halves e1 X a1 u1 @ halves e2 Y a2 u2 @ [((X, Y), no_attr)]"
  define G' where "G' = G\<lparr>nodes := nodes G @ [X, Y], edges := B0 @ C\<rparr>"
  have res: "AddEdgeBetween G edgeA edgeB None r = Inr (G', after_draw a2 (after_draw a1 r))"
    unfolding AddEdgeBetween_eq[OF ok A B] e12 a12
    by (simp add: G'_def C_def B0_def X Y u1 u2)
  have look: "map_of (edges G') k = map_of C k" if "k \<notin> fst ` set B0" for k
    using map_of_after[OF that, of C] by (simp add: G'_def)
  have c1: "map_of C (fst e1, X) =
      Some \<lparr>length_attr = map_option (\<lambda>l. float_mul u1 l) (length_attr a1), prob_attr = None\<rparr>"
    by (simp add: C_def halves_def)
  have c2: "map_of C (X, snd e1) =
      Some \<lparr>length_attr = map_option (\<lambda>l. float_sub l (float_mul u1 l)) (length_attr a1),
            prob_attr = prob_attr a1\<rparr>"
    using ne by (simp add: C_def halves_def)
  have c3: "map_of C (fst e2, Y) =
      Some \<lparr>length_attr = map_option (\<lambda>l. float_mul u2 l) (length_attr a2), prob_attr = None\<rparr>"
    using ne fr by (simp add: C_def halves_def)
  have c4: "map_of C (Y, snd e2) =
      Some \<lparr>length_attr = map_option (\<lambda>l. float_sub l (float_mul u2 l)) (length_attr a2),
            prob_attr = prob_attr a2\<rparr>"
    using ne fr by (simp add: C_def halves_def)
  have c5: "map_of C (X, Y) = Some no_attr"
    using ne fr by (simp add: C_def halves_def)
  show ?thesis
    using res look[OF kB(1)] look[OF kB(2)] look[OF kB(3)] look[OF kB(4)] c1 c2 c3 c4 c5
    by (intro exI[of _ G'] exI[of _ "after_draw a2 (after_draw a1 r)"]) simp
qed

text \<open>
  C6, as the code has it: in an insertion, with \<open>(e1, e2)\<close> the two edges after the exchange
  and \<open>X\<close>, \<open>Y\<close> the new nodes, a length \<open>L\<close> of \<open>e1\<close> gives \<open>(p1, X)\<close> the float product
  \<open>l1\<close> of \<open>L\<close> and the draw \<open>u1\<close> of \<open>random.random()\<close>, which is at least 0 and below 1, and
  gives \<open>(X, c1)\<close> the float difference \<open>l2\<close> of \<open>L\<close> and \<open>l1\<close>; \<open>l1 + l2\<close> is \<open>L\<close> up to the
  rounding of that difference, half a unit in its last place. A probability of \<open>e1\<close> goes
  unchanged to \<open>(X, c1)\<close> and \<open>(p1, X)\<close> has none; the same holds for \<open>e2\<close> and \<open>Y\<close>; the
  connector \<open>(X, Y)\<close> has neither.
\<close>

theorem attributes_redistributed_rounded:
  assumes "graph_ok G" and "has_edge G edgeA" and "has_edge G edgeB"
    and "oriented G edgeA edgeB = (e1, e2)"
    and "get_edge G e1 = Inr a1" and "get_edge G e2 = Inr a2"
    and "X = max_list (nodes G) + 1" and "Y = max_list (nodes G) + 2"
    and "u1 = fst (random_random r)"
    and "u2 = fst (random_random (after_draw a1 r))"
  shows "\<exists>G' r'. AddEdgeBetween G edgeA edgeB None r = Inr (G', r') \<and>
      0 \<le> u1 \<and> u1 < 1 \<and> 0 \<le> u2 \<and> u2 < 1 \<and>
      edge_length G' (fst e1, X) = map_option (\<lambda>l. float_mul u1 l) (length_attr a1) \<and>
      edge_length G' (X, snd e1) =
        map_option (\<lambda>l. float_sub l (float_mul u1 l)) (length_attr a1) \<and>
      edge_prob G' (fst e1, X) = None \<and>
      edge_prob G' (X, snd e1) = prob_attr a1 \<and>
      edge_length G' (fst e2, Y) = map_option (\<lambda>l. float_mul u2 l) (length_attr a2) \<and>
      edge_length G' (Y, snd e2) =
        map_option (\<lambda>l. float_sub l (float_mul u2 l)) (length_attr a2) \<and>
      edge_prob G' (fst e2, Y) = None \<and>
      edge_prob G' (Y, snd e2) = prob_attr a2 \<and>
      has_edge G' (X, Y) \<and> edge_length G' (X, Y) = None \<and> edge_prob G' (X, Y) = None \<and>
      (\<forall>L. length_attr a1 = Some L \<longrightarrow>
         (\<exists>l1 l2. edge_length G' (fst e1, X) = Some l1 \<and> edge_length G' (X, snd e1) = Some l2 \<and>
            \<bar>l1 + l2 - L\<bar> \<le> 2 powi (double_exponent (L - l1) - 53))) \<and>
      (\<forall>L. length_attr a2 = Some L \<longrightarrow>
         (\<exists>l1 l2. edge_length G' (fst e2, Y) = Some l1 \<and> edge_length G' (Y, snd e2) = Some l2 \<and>
            \<bar>l1 + l2 - L\<bar> \<le> 2 powi (double_exponent (L - l1) - 53)))"
proof -
  from AddEdgeBetween_attrs[OF assms] obtain G' r' where
    res: "AddEdgeBetween G edgeA edgeB None r = Inr (G', r')"
    and m1: "map_of (edges G') (fst e1, X) =
        Some \<lparr>length_attr = map_option (\<lambda>l. float_mul u1 l) (length_attr a1), prob_attr = None\<rparr>"
    and m2: "map_of (edges G') (X, snd e1) =
        Some \<lparr>length_attr = map_option (\<lambda>l. float_sub l (float_mul u1 l)) (length_attr a1),
              prob_attr = prob_attr a1\<rparr>"
    and m3: "map_of (edges G') (fst e2, Y) =
        Some \<lparr>length_attr = map_option (\<lambda>l. float_mul u2 l) (length_attr a2), prob_attr = None\<rparr>"
    and m4: "map_of (edges G') (Y, snd e2) =
        Some \<lparr>length_attr = map_option (\<lambda>l. float_sub l (float_mul u2 l)) (length_attr a2),
              prob_attr = prob_attr a2\<rparr>"
    and m5: "map_of (edges G') (X, Y) = Some no_attr"
    by blast
  have r1: "0 \<le> u1" "u1 < 1" and r2: "0 \<le> u2" "u2 < 1"
    using random_random_range assms(9,10) by simp_all
  have h5: "has_edge G' (X, Y)"
    using m5 by (auto simp: has_edge_def dest: map_of_SomeD intro: rev_image_eqI)
  have near: "\<bar>l + float_sub L l - L\<bar> \<le> 2 powi (double_exponent (L - l) - 53)" for l L
    using round_double_near[of "L - l"] by (simp add: float_sub_def algebra_simps abs_minus_commute)
  have s1: "\<forall>L. length_attr a1 = Some L \<longrightarrow>
         (\<exists>l1 l2. edge_length G' (fst e1, X) = Some l1 \<and> edge_length G' (X, snd e1) = Some l2 \<and>
            \<bar>l1 + l2 - L\<bar> \<le> 2 powi (double_exponent (L - l1) - 53))"
    using near by (simp add: edge_length_def m1 m2)
  have s2: "\<forall>L. length_attr a2 = Some L \<longrightarrow>
         (\<exists>l1 l2. edge_length G' (fst e2, Y) = Some l1 \<and> edge_length G' (Y, snd e2) = Some l2 \<and>
            \<bar>l1 + l2 - L\<bar> \<le> 2 powi (double_exponent (L - l1) - 53))"
    using near by (simp add: edge_length_def m3 m4)
  show ?thesis
    by (intro exI[of _ G'] exI[of _ r'] conjI res h5 s1 s2 r1 r2)
      (simp_all add: edge_length_def edge_prob_def m1 m2 m3 m4 m5 no_attr_def)
qed

lemma weighted_tree_ok: "graph_ok weighted_tree"
  by (simp add: graph_ok_def weighted_tree_def)

lemma quarter_u: "fst (random_random quarter_rng) = 1 / 4"
  "fst (random_random (next_float quarter_rng)) = 1 / 4"
  by (simp_all add: random_random_def quarter_rng_def next_float_def)

lemma float_mul_quarter_2: "float_mul (1 / 4) 2 = 1 / 2"
proof -
  have e: "double_exponent (1 / 4 * 2) = - 1"
    by (rule double_exponent_eq) (simp_all add: power_int_minus)
  have m: "round_half_even (1 / 4 * 2 / 2 powi (- 1 - 52)) = 4503599627370496"
    by (simp add: round_half_even_def power_int_minus Let_def)
  show ?thesis unfolding float_mul_def round_double_eq[OF e m] by (simp add: power_int_minus)
qed

lemma float_sub_2_half: "float_sub 2 (1 / 2) = 3 / 2"
proof -
  have e: "double_exponent (2 - 1 / 2) = 0"
    by (rule double_exponent_eq) simp_all
  have m: "round_half_even ((2 - 1 / 2) / 2 powi (0 - 52)) = 6755399441055744"
    by (simp add: round_half_even_def power_int_minus Let_def)
  show ?thesis unfolding float_sub_def round_double_eq[OF e m] by (simp add: power_int_minus)
qed

lemma float_mul_quarter_4: "float_mul (1 / 4) 4 = 1"
proof -
  have e: "double_exponent (1 / 4 * 4) = 0"
    by (rule double_exponent_eq) simp_all
  have m: "round_half_even (1 / 4 * 4 / 2 powi (0 - 52)) = 4503599627370496"
    by (simp add: round_half_even_def power_int_minus Let_def)
  show ?thesis unfolding float_mul_def round_double_eq[OF e m] by (simp add: power_int_minus)
qed

lemma float_sub_4_1: "float_sub 4 1 = 3"
proof -
  have e: "double_exponent (4 - 1) = 1"
    by (rule double_exponent_eq) simp_all
  have m: "round_half_even ((4 - 1) / 2 powi (1 - 52)) = 6755399441055744"
    by (simp add: round_half_even_def power_int_minus Let_def)
  show ?thesis unfolding float_sub_def round_double_eq[OF e m] by (simp add: power_int_minus)
qed

theorem attributes_redistributed_rounded_witness:
  "\<exists>G' r'. AddEdgeBetween weighted_tree (3, 1) (3, 2) None quarter_rng = Inr (G', r') \<and>
      edge_length G' (3, 4) = Some (1 / 2) \<and> edge_length G' (4, 1) = Some (3 / 2) \<and>
      edge_prob G' (3, 4) = None \<and> edge_prob G' (4, 1) = Some (1 / 2) \<and>
      edge_length G' (3, 5) = Some 1 \<and> edge_length G' (5, 2) = Some 3 \<and>
      edge_prob G' (3, 5) = None \<and> edge_prob G' (5, 2) = None \<and>
      has_edge G' (4, 5) \<and> edge_length G' (4, 5) = None \<and> edge_prob G' (4, 5) = None"
proof -
  have e: "has_edge weighted_tree (3, 1)" "has_edge weighted_tree (3, 2)"
    by (simp_all add: has_edge_def weighted_tree_def)
  have o: "oriented weighted_tree (3, 1) (3, 2) = ((3, 1), (3, 2))"
    by (simp add: oriented_def reachable_def weighted_tree_def successors_def)
  have g1: "get_edge weighted_tree (3, 1) = Inr \<lparr>length_attr = Some 2, prob_attr = Some (1 / 2)\<rparr>"
    and g2: "get_edge weighted_tree (3, 2) = Inr \<lparr>length_attr = Some 4, prob_attr = None\<rparr>"
    by (simp_all add: get_edge_def weighted_tree_def)
  have x: "(4::int) = max_list (nodes weighted_tree) + 1"
    and y: "(5::int) = max_list (nodes weighted_tree) + 2"
    by (simp_all add: max_list_def weighted_tree_def)
  have u1: "(1 / 4 :: real) = fst (random_random quarter_rng)"
    by (simp add: quarter_u)
  have u2: "(1 / 4 :: real) = fst (random_random (after_draw
      \<lparr>length_attr = Some 2, prob_attr = Some (1 / 2)\<rparr> quarter_rng))"
    by (simp add: after_draw_def quarter_u)
  from attributes_redistributed_rounded[OF weighted_tree_ok e o g1 g2 x y u1 u2]
  obtain G' r' where
    "AddEdgeBetween weighted_tree (3, 1) (3, 2) None quarter_rng = Inr (G', r')"
    "edge_length G' (3, 4) = Some (float_mul (1 / 4) 2)"
    "edge_length G' (4, 1) = Some (float_sub 2 (float_mul (1 / 4) 2))"
    "edge_prob G' (3, 4) = None" "edge_prob G' (4, 1) = Some (1 / 2)"
    "edge_length G' (3, 5) = Some (float_mul (1 / 4) 4)"
    "edge_length G' (5, 2) = Some (float_sub 4 (float_mul (1 / 4) 4))"
    "edge_prob G' (3, 5) = None" "edge_prob G' (5, 2) = None"
    "has_edge G' (4, 5)" "edge_length G' (4, 5) = None" "edge_prob G' (4, 5) = None"
    by auto
  then show ?thesis
    by (intro exI[of _ G'] exI[of _ r'])
      (simp add: float_mul_quarter_2 float_sub_2_half float_mul_quarter_4 float_sub_4_1)
qed

lemma rounding_tree_ok: "graph_ok rounding_tree"
  by (simp add: graph_ok_def rounding_tree_def)

theorem lengths_sum_counterexample:
  "edge_length rounding_tree (3, 1) = Some nine_tenths \<and>
   oriented rounding_tree (3, 1) (3, 2) = ((3, 1), (3, 2)) \<and>
   edge_length (graph_of (AddEdgeBetween rounding_tree (3, 1) (3, 2) None rounding_rng)) (3, 4)
     = Some (3083838701254355 / 2 ^ 54) \<and>
   edge_length (graph_of (AddEdgeBetween rounding_tree (3, 1) (3, 2) None rounding_rng)) (4, 1)
     = Some (1641139994659929 / 2 ^ 51) \<and>
   (3083838701254355 / 2 ^ 54 + 1641139994659929 / 2 ^ 51 :: real) \<noteq> nine_tenths"
proof -
  have e: "has_edge rounding_tree (3, 1)" "has_edge rounding_tree (3, 2)"
    by (simp_all add: has_edge_def rounding_tree_def)
  have o: "oriented rounding_tree (3, 1) (3, 2) = ((3, 1), (3, 2))"
    by (simp add: oriented_def reachable_def rounding_tree_def successors_def)
  have g1: "get_edge rounding_tree (3, 1) = Inr \<lparr>length_attr = Some nine_tenths, prob_attr = None\<rparr>"
    and g2: "get_edge rounding_tree (3, 2) = Inr no_attr"
    by (simp_all add: get_edge_def rounding_tree_def)
  have x: "(4::int) = max_list (nodes rounding_tree) + 1"
    and y: "(5::int) = max_list (nodes rounding_tree) + 2"
    by (simp_all add: max_list_def rounding_tree_def)
  from AddEdgeBetween_attrs[where r = rounding_rng, OF rounding_tree_ok e o g1 g2 x y refl refl]
  obtain G' r' where
    res: "AddEdgeBetween rounding_tree (3, 1) (3, 2) None rounding_rng = Inr (G', r')"
    and m1: "map_of (edges G') (3, 4) =
        Some \<lparr>length_attr = Some (float_mul (fst (random_random rounding_rng)) nine_tenths),
              prob_attr = None\<rparr>"
    and m2: "map_of (edges G') (4, 1) =
        Some \<lparr>length_attr = Some (float_sub nine_tenths
                 (float_mul (fst (random_random rounding_rng)) nine_tenths)),
              prob_attr = None\<rparr>"
    by auto
  have v1: "float_mul (fst (random_random rounding_rng)) nine_tenths = 3083838701254355 / 2 ^ 54"
    unfolding rounding_u by (rule rounding_l1)
  have v2: "float_sub nine_tenths (float_mul (fst (random_random rounding_rng)) nine_tenths) =
      1641139994659929 / 2 ^ 51"
    unfolding v1 by (rule rounding_l2)
  have l0: "edge_length rounding_tree (3, 1) = Some nine_tenths"
    by (simp add: edge_length_def rounding_tree_def)
  have l1: "edge_length (graph_of (AddEdgeBetween rounding_tree (3, 1) (3, 2) None rounding_rng))
      (3, 4) = Some (3083838701254355 / 2 ^ 54)"
    unfolding res graph_of_def edge_length_def by (simp add: m1 v1)
  have l2: "edge_length (graph_of (AddEdgeBetween rounding_tree (3, 1) (3, 2) None rounding_rng))
      (4, 1) = Some (1641139994659929 / 2 ^ 51)"
    unfolding res graph_of_def edge_length_def by (simp add: m2 v2)
  show ?thesis by (intro conjI l0 o l1 l2 rounding_sum)
qed

lemma two_tip_edge_list: "edge_list two_tip_tree = [(3, 1), (3, 2)]"
  by (simp add: edge_list_def two_tip_tree_def successors_def)

lemma next_pick_zero: "next_pick zero_rng = zero_rng"
  by (simp add: next_pick_def zero_rng_def)

lemma next_float_zero: "next_float zero_rng = zero_rng"
  by (simp add: next_float_def zero_rng_def)

lemma random_random_zero: "random_random zero_rng = (0, zero_rng)"
  by (simp add: random_random_def next_float_zero Let_def) (simp add: zero_rng_def)

lemma random_choice_zero: "xs \<noteq> [] \<Longrightarrow> random_choice xs zero_rng = Inr (xs ! 0, zero_rng)"
  by (simp add: random_choice_def next_pick_zero) (simp add: zero_rng_def)

lemma two_tip_neighbours_1: "neighbours two_tip_tree 1 = Inr [3]"
  by (simp add: neighbours_def two_tip_tree_def successors_def predecessors_def)

lemma two_tip_neighbours_3: "neighbours two_tip_tree 3 = Inr [1, 2]"
  by (simp add: neighbours_def two_tip_tree_def successors_def predecessors_def)

lemma walk_zero: "walk two_tip_tree 1 None 1 3 1 zero_rng = Some (Inr (1, 3, zero_rng))"
  by (subst walk.simps)
    (simp add: two_tip_neighbours_1 ebind_def random_choice_zero random_random_zero)

lemma attempt_zero:
  "attempt two_tip_tree 1 None zero_rng = Some (Inr ((3, 1), (3, 1), zero_rng))"
  by (simp add: attempt_def two_tip_edge_list random_choice_zero walk_zero)
    (simp add: has_edge_def two_tip_tree_def)

lemma select_zero:
  "select_local two_tip_tree 1 None (Some 1) 1 None zero_rng =
     Some (Inr ((3, 1), (3, 1), zero_rng))"
  apply (subst select_local.simps)
  apply (simp add: attempt_zero)
  apply (subst select_local.simps)
  apply simp
  done

lemma same_edge_keys:
  "spliced_keys two_tip_tree (3, 1) (3, 1) = [(3, 2), (3, 4), (4, 1), (3, 5), (5, 1), (4, 5)]"
  by (simp add: spliced_keys_def oriented_def reachable_def two_tip_tree_def successors_def
      max_list_def Let_def)

lemma same_edge_insertion:
  "\<exists>G' r'. AddEdgeBetween two_tip_tree (3, 1) (3, 1) None r = Inr (G', r') \<and>
     nodes G' = [3, 1, 2, 4, 5] \<and>
     map fst (edges G') = [(3, 2), (3, 4), (4, 1), (3, 5), (5, 1), (4, 5)]"
proof -
  from AddEdgeBetween_shape[OF two_tip_tree_ok two_tip_tree_edges(1) two_tip_tree_edges(1), of r]
  obtain G' r' where res: "AddEdgeBetween two_tip_tree (3, 1) (3, 1) None r = Inr (G', r')"
    and n: "nodes G' = nodes two_tip_tree @
        [max_list (nodes two_tip_tree) + 1, max_list (nodes two_tip_tree) + 2]"
    and k: "map fst (edges G') = spliced_keys two_tip_tree (3, 1) (3, 1)" by blast
  have "nodes G' = [3, 1, 2, 4, 5]" using n by (simp add: two_tip_tree_def max_list_def)
  with res k same_edge_keys show ?thesis by simp
qed

text \<open>
  C7: with \<open>max_tries = 1\<close>, when the one walk comes back to \<open>edge1\<close> the loop ends without a
  distinct pair; \<open>AddEdgeLocal\<close> then does not fail but calls \<open>AddEdgeBetween\<close> with
  \<open>edge1 = edge2\<close>, and the graph is changed: the edge is removed, two nodes and five edges
  are added.
\<close>

theorem exhausted_tries_still_mutate:
  "\<exists>G' r'. AddEdgeLocal two_tip_tree None 1 None (Some 1) zero_rng = Some (Inr (G', r')) \<and>
     nodes G' = [3, 1, 2, 4, 5] \<and>
     map fst (edges G') = [(3, 2), (3, 4), (4, 1), (3, 5), (5, 1), (4, 5)] \<and>
     edges G' \<noteq> edges two_tip_tree"
proof -
  from same_edge_insertion[of zero_rng] obtain G' r' where
    res: "AddEdgeBetween two_tip_tree (3, 1) (3, 1) None zero_rng = Inr (G', r')"
    and n: "nodes G' = [3, 1, 2, 4, 5]"
    and k: "map fst (edges G') = [(3, 2), (3, 4), (4, 1), (3, 5), (5, 1), (4, 5)]" by auto
  have "AddEdgeLocal two_tip_tree None 1 None (Some 1) zero_rng = Some (Inr (G', r'))"
    by (simp add: AddEdgeLocal_def select_zero res)
  moreover have "edges G' \<noteq> edges two_tip_tree"
  proof
    assume "edges G' = edges two_tip_tree"
    then have "map fst (edges G') = map fst (edges two_tip_tree)" by simp
    then show False unfolding k by (simp add: two_tip_tree_def)
  qed
  ultimately show ?thesis using n k by auto
qed

text \<open>
  C3: the two index draws of \<open>AddEdgeUniform\<close> are independent and nothing is drawn again:
  when both are 0 the same edge is passed twice to \<open>AddEdgeBetween\<close>.
\<close>

theorem uniform_passes_same_edge:
  "np_random_choice2 (length (edge_list two_tip_tree)) zero_rng = Inr ((0, 0), zero_rng) \<and>
   AddEdgeUniform two_tip_tree None zero_rng =
     AddEdgeBetween two_tip_tree (3, 1) (3, 1) None zero_rng"
proof -
  have c: "np_random_choice2 (length (edge_list two_tip_tree)) zero_rng = Inr ((0, 0), zero_rng)"
    by (simp add: np_random_choice2_def two_tip_edge_list next_pick_zero)
      (simp add: zero_rng_def)
  have "AddEdgeUniform two_tip_tree None zero_rng =
     AddEdgeBetween two_tip_tree (3, 1) (3, 1) None zero_rng"
    unfolding AddEdgeUniform_def Let_def c by (simp add: ebind_def two_tip_edge_list)
  with c show ?thesis by simp
qed

text \<open>
  C2: one uniform insertion into the tree with two tips (3 nodes, 2 edges), both index draws
  0, leaves 5 nodes and 6 edges, not 5 edges: the edge count has grown by 4.
\<close>

theorem uniform_insertion_adds_four_edges:
  "\<exists>G' r'. GenerateNetwork two_tip_tree 1 None zero_rng = Some (Inr (G', r')) \<and>
     length (nodes two_tip_tree) = 3 \<and> length (edges two_tip_tree) = 2 \<and>
     length (nodes G') = 5 \<and> length (edges G') = 6 \<and>
     length (edge_list G') = 6"
proof -
  from same_edge_insertion[of zero_rng] obtain G' r' where
    res: "AddEdgeBetween two_tip_tree (3, 1) (3, 1) None zero_rng = Inr (G', r')"
    and n: "nodes G' = [3, 1, 2, 4, 5]"
    and k: "map fst (edges G') = [(3, 2), (3, 4), (4, 1), (3, 5), (5, 1), (4, 5)]" by auto
  have c: "np_random_choice2 (length (edge_list two_tip_tree)) zero_rng = Inr ((0, 0), zero_rng)"
    by (simp add: np_random_choice2_def two_tip_edge_list next_pick_zero)
      (simp add: zero_rng_def)
  have u: "AddEdgeUniform two_tip_tree None zero_rng = Inr (G', r')"
    unfolding AddEdgeUniform_def Let_def c by (simp add: ebind_def two_tip_edge_list res)
  have g: "GenerateNetwork two_tip_tree 1 None zero_rng = Some (Inr (G', r'))"
    by (simp add: GenerateNetwork_def u)
  have "length (map fst (edges G')) = 6" unfolding k by simp
  then have le: "length (edges G') = 6" by simp
  have succ: "successors G' u = map snd (filter (\<lambda>e. fst e = u) (map fst (edges G')))" for u
    by (simp add: successors_def filter_map comp_def)
  have "edge_list G' = [(3, 2), (3, 4), (3, 5), (4, 1), (4, 5), (5, 1)]"
    by (simp add: edge_list_def n succ k)
  then have "length (edge_list G') = 6" by simp
  with g n le show ?thesis by (simp add: two_tip_tree_def)
qed

lemma later_picks: "picks (next_pick later_rng) i = 1" "picks later_rng 0 = 0"
  by (simp_all add: next_pick_def later_rng_def)

lemma later_fixed: "next_pick (next_pick later_rng) = next_pick later_rng"
  by (simp add: next_pick_def later_rng_def)

lemma later_float: "random_random (next_pick later_rng) = (0, next_pick later_rng)"
  by (simp add: random_random_def next_float_def next_pick_def later_rng_def Let_def)

lemma walk_later:
  "walk two_tip_tree 1 None 1 1 3 (next_pick later_rng) = Some (Inr (3, 2, next_pick later_rng))"
  by (subst walk.simps)
    (simp add: two_tip_neighbours_3 ebind_def random_choice_def later_picks later_fixed
      later_float)

lemma attempt_later:
  "attempt two_tip_tree 1 None later_rng = Some (Inr ((3, 1), (3, 2), next_pick later_rng))"
proof -
  have c1: "random_choice (edge_list two_tip_tree) later_rng = Inr ((3, 1), next_pick later_rng)"
    by (simp add: random_choice_def two_tip_edge_list later_picks)
  have c2: "random_choice [3, 1 :: int] (next_pick later_rng) = Inr (1, next_pick later_rng)"
    by (simp add: random_choice_def later_picks later_fixed)
  show ?thesis
    by (simp add: attempt_def c1 c2 walk_later) (simp add: has_edge_def two_tip_tree_def)
qed

text \<open>
  C10: a walk that starts on an edge ends on an edge, in one direction or the other; so both
  edges an attempt leaves, and both edges the selector hands over, are edges of the graph,
  their attribute dictionaries are found, and on a well-formed graph \<open>AddEdgeBetween\<close>
  returns a graph.
\<close>

theorem walk_ends_on_edge:
  "(walk G sp ms k prev cur r = Some (Inr (p, c, r1)) \<and>
      (has_edge G (prev, cur) \<or> has_edge G (cur, prev)) \<longrightarrow>
        has_edge G (p, c) \<or> has_edge G (c, p)) \<and>
   (attempt G sp ms ra = Some (Inr (e1, e2, r2)) \<longrightarrow>
        has_edge G e1 \<and> has_edge G e2 \<and> (\<exists>a. get_edge G e2 = Inr a)) \<and>
   (select_local G sp ms mt 1 None rs = Some (Inr (e3, e4, r3)) \<longrightarrow>
        has_edge G e3 \<and> has_edge G e4 \<and>
        (\<exists>a. get_edge G e3 = Inr a) \<and> (\<exists>a. get_edge G e4 = Inr a) \<and>
        (graph_ok G \<longrightarrow> (\<exists>G' r'. AddEdgeBetween G e3 e4 None r3 = Inr (G', r'))))"
proof (intro conjI impI)
  assume "walk G sp ms k prev cur r = Some (Inr (p, c, r1)) \<and>
      (has_edge G (prev, cur) \<or> has_edge G (cur, prev))"
  then show "has_edge G (p, c) \<or> has_edge G (c, p)" using walk_edge by blast
next
  assume a: "attempt G sp ms ra = Some (Inr (e1, e2, r2))"
  from attempt_edges[OF a] show "has_edge G e1" "has_edge G e2" by simp_all
  from attempt_edges[OF a] get_edge_the[of G e2] show "\<exists>a. get_edge G e2 = Inr a" by blast
next
  assume s: "select_local G sp ms mt 1 None rs = Some (Inr (e3, e4, r3))"
  note h = select_local_edges[OF s]
  from h show "has_edge G e3" "has_edge G e4" by simp_all
  from h get_edge_the[of G e3] show "\<exists>a. get_edge G e3 = Inr a" by blast
  from h get_edge_the[of G e4] show "\<exists>a. get_edge G e4 = Inr a" by blast
  assume ok: "graph_ok G"
  from AddEdgeBetween_shape[OF ok conjunct1[OF h] conjunct2[OF h], of r3]
  show "\<exists>G' r'. AddEdgeBetween G e3 e4 None r3 = Inr (G', r')" by blast
qed

theorem walk_ends_on_edge_witness:
  "walk two_tip_tree 1 None 1 3 1 zero_rng = Some (Inr (1, 3, zero_rng)) \<and>
   has_edge two_tip_tree (3, 1) \<and>
   attempt two_tip_tree 1 None later_rng = Some (Inr ((3, 1), (3, 2), next_pick later_rng)) \<and>
   has_edge two_tip_tree (3, 2) \<and>
   select_local two_tip_tree 1 None None 1 None later_rng =
     Some (Inr ((3, 1), (3, 2), next_pick later_rng)) \<and>
   graph_ok two_tip_tree \<and>
   (\<exists>G' r'. AddEdgeBetween two_tip_tree (3, 1) (3, 2) None (next_pick later_rng) = Inr (G', r'))"
proof -
  have s: "select_local two_tip_tree 1 None None 1 None later_rng =
     Some (Inr ((3, 1), (3, 2), next_pick later_rng))"
    by (subst select_local.simps) (simp add: attempt_later)
  note t = walk_ends_on_edge[where G = two_tip_tree and sp = 1 and ms = None and k = 1
      and prev = 3 and cur = 1 and r = zero_rng and p = 1 and c = 3 and ?r1.0 = zero_rng
      and ra = later_rng and ?e1.0 = "(3, 1)" and ?e2.0 = "(3, 2)"
      and ?r2.0 = "next_pick later_rng" and mt = None and rs = later_rng
      and ?e3.0 = "(3, 1)" and ?e4.0 = "(3, 2)" and ?r3.0 = "next_pick later_rng"]
  from t s two_tip_tree_ok have
    "\<exists>G' r'. AddEdgeBetween two_tip_tree (3, 1) (3, 2) None (next_pick later_rng) = Inr (G', r')"
    by blast
  with s walk_zero attempt_later two_tip_tree_ok two_tip_tree_edges show ?thesis by simp
qed

lemma add_edge_grow:
  assumes "graph_ok G" "v \<in> set (nodes G)" "x \<notin> set (nodes G)"
  shows "add_edge G v x = grow G v x"
proof -
  have "(v, x) \<notin> fst ` set (edges G)"
    using assms(1,3) by (force simp: graph_ok_def list_all_iff)
  from add_edge_new_target[OF assms(2,3) this] show ?thesis
    by (simp add: grow_def)
qed

lemma grow_simps [simp]:
  "nodes (grow G v x) = nodes G @ [x]"
  "label (grow G v x) = label G"
  "successors (grow G v x) u = successors G u @ (if u = v then [x] else [])"
  "predecessors (grow G v x) u = predecessors G u @ (if u = x then [v] else [])"
  "edge_set (grow G v x) = insert (v, x) (edge_set G)"
  by (auto simp: grow_def successors_def predecessors_def edge_set_def)

lemma grow_ok:
  assumes "graph_ok G" "v \<in> set (nodes G)" "x \<notin> set (nodes G)"
  shows "graph_ok (grow G v x)"
proof -
  have "(v, x) \<notin> fst ` set (edges G)"
    using assms(1,3) by (force simp: graph_ok_def list_all_iff)
  then show ?thesis
    using assms by (auto simp: graph_ok_def grow_def list_all_iff)
qed

lemma grow_acyclic:
  assumes "graph_ok G" "acyclic (edge_set G)" "v \<in> set (nodes G)" "x \<notin> set (nodes G)"
  shows "acyclic (edge_set (grow G v x))"
proof -
  have "(x, v) \<notin> (edge_set G)\<^sup>*"
  proof
    assume "(x, v) \<in> (edge_set G)\<^sup>*"
    moreover have "x \<noteq> v" using assms(3,4) by auto
    ultimately have "x \<in> Field (edge_set G)"
      by (metis FieldI1 converse_rtranclE)
    with graph_ok_Field[OF assms(1,4)] show False by simp
  qed
  with assms(2) show ?thesis by simp
qed

lemma successors_in_nodes:
  "graph_ok G \<Longrightarrow> a \<in> set (successors G v) \<Longrightarrow> a \<in> set (nodes G)"
  by (force simp: set_successors graph_ok_def list_all_iff edge_set_def)

lemma predecessors_fresh:
  "graph_ok G \<Longrightarrow> x \<notin> set (nodes G) \<Longrightarrow> predecessors G x = [] \<and> successors G x = []"
  by (force simp: successors_def predecessors_def graph_ok_def list_all_iff filter_empty_conv)

lemma sim_invD:
  assumes "sim_inv n st cur"
  shows "graph_ok (tree st)" and "acyclic (edge_set (tree st))"
    and "set (nodes (tree st)) = {1..last_leaf_node st} \<union> {n + 1..last_internal_node st}"
    and "0 \<le> last_leaf_node st" and "last_leaf_node st \<le> n" and "n + 1 \<le> last_internal_node st"
    and "distinct (queue st)" and "set (queue st) \<subseteq> {n + 1..last_internal_node st}"
    and "\<And>v. v \<in> set (queue st) \<Longrightarrow>
           successors (tree st) v = [] \<and> (\<exists>m\<ge>2. label (tree st) v = Some m)"
    and "\<And>v. v \<notin> {n + 1..last_internal_node st} \<Longrightarrow> label (tree st) v = None"
    and "\<And>v. v \<in> {1..last_leaf_node st} \<Longrightarrow> successors (tree st) v = []"
    and "\<And>v. v \<in> {n + 1..last_internal_node st} \<Longrightarrow> v \<notin> set (queue st) \<Longrightarrow> cur \<noteq> Some v \<Longrightarrow>
           length (successors (tree st) v) = 2 \<and> label (tree st) v = Some (tips_sum (tree st) v)"
    and "\<And>v. cur = Some v \<Longrightarrow>
           v \<in> {n + 1..last_internal_node st} \<and> v \<notin> set (queue st) \<and> label (tree st) v \<noteq> None"
    and "predecessors (tree st) (n + 1) = []"
    and "\<And>v. v \<in> set (nodes (tree st)) \<Longrightarrow> v \<noteq> n + 1 \<Longrightarrow>
           length (predecessors (tree st) v) = 1"
    and "last_leaf_node st + queued_tips (tree st) (queue st) + remaining (tree st) cur = n"
    and "last_internal_node st =
           n - 1 + last_leaf_node st + 2 * int (length (queue st)) + open_slots (tree st) cur"
    and "label (tree st) (n + 1) = Some n"
  using assms unfolding sim_inv_def Let_def by blast+

lemma sim_invI:
  assumes "graph_ok (tree st)" and "acyclic (edge_set (tree st))"
    and "set (nodes (tree st)) = {1..last_leaf_node st} \<union> {n + 1..last_internal_node st}"
    and "0 \<le> last_leaf_node st" and "last_leaf_node st \<le> n" and "n + 1 \<le> last_internal_node st"
    and "distinct (queue st)" and "set (queue st) \<subseteq> {n + 1..last_internal_node st}"
    and "\<And>v. v \<in> set (queue st) \<Longrightarrow>
           successors (tree st) v = [] \<and> (\<exists>m\<ge>2. label (tree st) v = Some m)"
    and "\<And>v. v \<notin> {n + 1..last_internal_node st} \<Longrightarrow> label (tree st) v = None"
    and "\<And>v. v \<in> {1..last_leaf_node st} \<Longrightarrow> successors (tree st) v = []"
    and "\<And>v. v \<in> {n + 1..last_internal_node st} \<Longrightarrow> v \<notin> set (queue st) \<Longrightarrow> cur \<noteq> Some v \<Longrightarrow>
           length (successors (tree st) v) = 2 \<and> label (tree st) v = Some (tips_sum (tree st) v)"
    and "\<And>v. cur = Some v \<Longrightarrow>
           v \<in> {n + 1..last_internal_node st} \<and> v \<notin> set (queue st) \<and> label (tree st) v \<noteq> None"
    and "predecessors (tree st) (n + 1) = []"
    and "\<And>v. v \<in> set (nodes (tree st)) \<Longrightarrow> v \<noteq> n + 1 \<Longrightarrow>
           length (predecessors (tree st) v) = 1"
    and "last_leaf_node st + queued_tips (tree st) (queue st) + remaining (tree st) cur = n"
    and "last_internal_node st =
           n - 1 + last_leaf_node st + 2 * int (length (queue st)) + open_slots (tree st) cur"
    and "label (tree st) (n + 1) = Some n"
  shows "sim_inv n st cur"
  unfolding sim_inv_def Let_def using assms by blast

lemma queued_tips_ge:
  assumes "\<And>v. v \<in> set q \<Longrightarrow> \<exists>m\<ge>2. label T v = Some m"
  shows "2 * int (length q) \<le> queued_tips T q"
  using assms
proof (induction q)
  case Nil
  then show ?case by (simp add: queued_tips_def)
next
  case (Cons a q)
  from Cons.prems[of a] obtain m where "m \<ge> 2" "label T a = Some m" by auto
  then have "2 \<le> tips_of T a" by (simp add: tips_of_def)
  moreover have "2 * int (length q) \<le> queued_tips T q" using Cons by simp
  ultimately show ?case by (simp add: queued_tips_def)
qed

lemma tips_sum_cong:
  assumes "successors T' v = successors T v"
    and "\<And>a. a \<in> set (successors T v) \<Longrightarrow> label T' a = label T a"
  shows "tips_sum T' v = tips_sum T v"
proof -
  have "map (tips_of T') (successors T v) = map (tips_of T) (successors T v)"
    using assms(2) by (simp add: tips_of_def)
  then show ?thesis unfolding tips_sum_def assms(1) by (rule arg_cong)
qed

lemma queued_tips_cong:
  assumes "\<And>a. a \<in> set q \<Longrightarrow> label T' a = label T a"
  shows "queued_tips T' q = queued_tips T q"
proof -
  have "map (tips_of T') q = map (tips_of T) q" using assms by (simp add: tips_of_def)
  then show ?thesis unfolding queued_tips_def by (rule arg_cong)
qed

lemma add_child_leaf:
  assumes inv: "sim_inv n st (Some v)" and rem: "1 \<le> remaining (tree st) (Some v)"
  defines "st' \<equiv> st\<lparr>tree := grow (tree st) v (last_leaf_node st + 1),
                      last_leaf_node := last_leaf_node st + 1\<rparr>"
  shows "add_child v st 1 = Inr st'" and "sim_inv n st' (Some v)"
    and "remaining (tree st') (Some v) = remaining (tree st) (Some v) - 1"
    and "length (successors (tree st') v) = length (successors (tree st) v) + 1"
proof -
  define T where "T = tree st"
  define ll where "ll = last_leaf_node st"
  define li where "li = last_internal_node st"
  define x where "x = ll + 1"
  note d = sim_invD[OF inv, folded T_def ll_def li_def]
  have cur: "v \<in> {n + 1..li}" "v \<notin> set (queue st)" "label T v \<noteq> None"
    using d(13)[OF refl] by simp_all
  have qge: "0 \<le> queued_tips T (queue st)"
    using queued_tips_ge[of "queue st" T] d(9) by fastforce
  have xn: "x \<le> n" using d(16) rem qge by (simp add: x_def T_def)
  have x0: "1 \<le> x" using d(4) by (simp add: x_def)
  have xfresh: "x \<notin> set (nodes T)" using xn by (auto simp: d(3) x_def)
  have vnode: "v \<in> set (nodes T)" using cur(1) by (simp add: d(3))
  have vx: "v \<noteq> x" using vnode xfresh by auto
  have xlab: "label T x = None" using d(10)[of x] xn by simp
  have xtips: "tips_of T x = 1" by (simp add: tips_of_def xlab)
  define T' where "T' = grow T v x"
  have st': "st' = st\<lparr>tree := T', last_leaf_node := x\<rparr>"
    by (simp add: st'_def T'_def T_def x_def ll_def)
  have ae: "add_edge T v x = T'" unfolding T'_def by (rule add_edge_grow[OF d(1) vnode xfresh])
  show "add_child v st 1 = Inr st'"
    using ae by (simp add: add_child_def st' T_def x_def ll_def)
  have tips': "tips_of T' a = tips_of T a" for a by (simp add: tips_of_def T'_def)
  have sum_other: "tips_sum T' u = tips_sum T u" if "u \<noteq> v" for u
    using that by (intro tips_sum_cong) (simp_all add: T'_def)
  have tips_fun: "tips_of T' = tips_of T" by (rule ext) (rule tips')
  have "successors T' v = successors T v @ [x]" by (simp add: T'_def)
  then have sum_v: "tips_sum T' v = tips_sum T v + 1"
    by (simp add: tips_sum_def tips_fun xtips)
  have q': "queued_tips T' (queue st) = queued_tips T (queue st)"
    by (intro queued_tips_cong) (simp add: T'_def)
  show r': "remaining (tree st') (Some v) = remaining (tree st) (Some v) - 1"
    by (simp add: st' remaining_def tips' sum_v T_def[symmetric])
  show l': "length (successors (tree st') v) = length (successors (tree st) v) + 1"
    by (simp add: st' T'_def T_def)
  show "sim_inv n st' (Some v)"
  proof (rule sim_invI)
    show "graph_ok (tree st')" unfolding st' using grow_ok[OF d(1) vnode xfresh] by (simp add: T'_def)
    show "acyclic (edge_set (tree st'))"
      unfolding st' using grow_acyclic[OF d(1) d(2) vnode xfresh] by (simp add: T'_def)
    show "set (nodes (tree st')) = {1..last_leaf_node st'} \<union> {n + 1..last_internal_node st'}"
      using x0 by (auto simp: st' T'_def d(3) x_def li_def)
    show "0 \<le> last_leaf_node st'" "last_leaf_node st' \<le> n" "n + 1 \<le> last_internal_node st'"
      using x0 xn d(6) by (simp_all add: st' li_def)
    show "distinct (queue st')" "set (queue st') \<subseteq> {n + 1..last_internal_node st'}"
      using d(7) d(8) by (simp_all add: st' li_def)
    show "successors (tree st') u = [] \<and> (\<exists>m\<ge>2. label (tree st') u = Some m)"
      if "u \<in> set (queue st')" for u
      using that d(9)[of u] cur(2) by (auto simp: st' T'_def)
    show "label (tree st') u = None" if "u \<notin> {n + 1..last_internal_node st'}" for u
      using that d(10)[of u] by (simp add: st' T'_def li_def)
    show "successors (tree st') u = []" if "u \<in> {1..last_leaf_node st'}" for u
    proof (cases "u = x")
      case True
      then show ?thesis using predecessors_fresh[OF d(1) xfresh] vx by (simp add: st' T'_def)
    next
      case False
      with that have "u \<in> {1..ll}" by (simp add: st' x_def)
      moreover have "u \<noteq> v" using that cur(1) xn by (simp add: st')
      ultimately show ?thesis using d(11)[of u] by (simp add: st' T'_def)
    qed
    show "length (successors (tree st') u) = 2 \<and> label (tree st') u = Some (tips_sum (tree st') u)"
      if "u \<in> {n + 1..last_internal_node st'}" "u \<notin> set (queue st')" "Some v \<noteq> Some u" for u
    proof -
      have uv: "u \<noteq> v" using that(3) by simp
      from that have "length (successors T u) = 2 \<and> label T u = Some (tips_sum T u)"
        using d(12)[of u] by (simp add: st' li_def)
      then show ?thesis using uv sum_other[OF uv] by (simp add: st') (simp add: T'_def)
    qed
    show "u \<in> {n + 1..last_internal_node st'} \<and> u \<notin> set (queue st') \<and> label (tree st') u \<noteq> None"
      if "Some v = Some u" for u
      using that cur by (simp add: st' T'_def li_def)
    show "predecessors (tree st') (n + 1) = []"
      using d(14) xn by (simp add: st' T'_def)
    show "length (predecessors (tree st') u) = 1"
      if "u \<in> set (nodes (tree st'))" "u \<noteq> n + 1" for u
    proof (cases "u = x")
      case True
      then show ?thesis using predecessors_fresh[OF d(1) xfresh] by (simp add: st' T'_def)
    next
      case False
      with that show ?thesis using d(15)[of u] by (simp add: st' T'_def)
    qed
    show "last_leaf_node st' + queued_tips (tree st') (queue st') + remaining (tree st') (Some v) = n"
      using d(16) r' q' by (simp add: st' x_def T_def)
    show "last_internal_node st' = n - 1 + last_leaf_node st' + 2 * int (length (queue st')) +
        open_slots (tree st') (Some v)"
      using d(17) l' by (simp add: st' open_slots_def x_def li_def T_def)
    show "label (tree st') (n + 1) = Some n" using d(18) by (simp add: st' T'_def)
  qed
qed

lemma add_child_internal:
  assumes inv: "sim_inv n st (Some v)" and c2: "2 \<le> c"
  defines "st' \<equiv> st\<lparr>tree := (grow (tree st) v (last_internal_node st + 1))
                        \<lparr>label := (label (tree st))(last_internal_node st + 1 \<mapsto> c)\<rparr>,
                      queue := queue st @ [last_internal_node st + 1],
                      last_internal_node := last_internal_node st + 1\<rparr>"
  shows "add_child v st c = Inr st'" and "sim_inv n st' (Some v)"
    and "remaining (tree st') (Some v) = remaining (tree st) (Some v) - c"
    and "length (successors (tree st') v) = length (successors (tree st) v) + 1"
proof -
  define T where "T = tree st"
  define ll where "ll = last_leaf_node st"
  define li where "li = last_internal_node st"
  define q where "q = queue st"
  define x where "x = li + 1"
  note d = sim_invD[OF inv, folded T_def ll_def li_def q_def]
  have cur: "v \<in> {n + 1..li}" "v \<notin> set q" "label T v \<noteq> None"
    using d(13)[OF refl] by simp_all
  have xfresh: "x \<notin> set (nodes T)" using d(5) d(6) by (auto simp: d(3) x_def)
  have vnode: "v \<in> set (nodes T)" using cur(1) by (simp add: d(3))
  have vx: "v \<noteq> x" using vnode xfresh by auto
  have xq: "x \<notin> set q" using d(8) by (auto simp: x_def)
  define T' where "T' = (grow T v x)\<lparr>label := (label T)(x \<mapsto> c)\<rparr>"
  have st': "st' = st\<lparr>tree := T', queue := q @ [x], last_internal_node := x\<rparr>"
    by (simp add: st'_def T'_def T_def x_def li_def q_def)
  have ae: "add_edge T v x = grow T v x" by (rule add_edge_grow[OF d(1) vnode xfresh])
  have c1: "c \<noteq> 1" using c2 by simp
  show "add_child v st c = Inr st'"
    using ae c1 by (simp add: add_child_def st' T_def[symmetric] li_def[symmetric] x_def[symmetric]
        q_def[symmetric] set_label_def ebind_def T'_def)
  have nodes': "nodes T' = nodes T @ [x]" by (simp add: T'_def)
  have succ': "successors T' u = successors T u @ (if u = v then [x] else [])" for u
    by (simp add: T'_def successors_def grow_def)
  have pred': "predecessors T' u = predecessors T u @ (if u = x then [v] else [])" for u
    by (simp add: T'_def predecessors_def grow_def)
  have lab': "label T' u = (if u = x then Some c else label T u)" for u
    by (simp add: T'_def)
  have es': "edge_set T' = edge_set (grow T v x)" by (simp add: T'_def edge_set_def)
  have ok': "graph_ok T'"
    using grow_ok[OF d(1) vnode xfresh] by (simp add: graph_ok_def T'_def)
  have tips_old: "tips_of T' a = tips_of T a" if "a \<noteq> x" for a
    using that by (simp add: tips_of_def lab')
  have tips_x: "tips_of T' x = c" by (simp add: tips_of_def lab')
  have succ_old: "a \<noteq> x" if "a \<in> set (successors T u)" for a u
    using successors_in_nodes[OF d(1) that] xfresh by auto
  have sum_other: "tips_sum T' u = tips_sum T u" if "u \<noteq> v" for u
    using that succ_old[of _ u] by (intro tips_sum_cong) (auto simp: succ' lab')
  have m: "map (tips_of T') (successors T v) = map (tips_of T) (successors T v)"
    using succ_old[of _ v] tips_old by simp
  have sum_v: "tips_sum T' v = tips_sum T v + c"
    by (simp add: tips_sum_def succ' tips_x m)
  have q': "queued_tips T' q = queued_tips T q"
    using xq by (intro queued_tips_cong) (auto simp: lab')
  have q'': "queued_tips T' (q @ [x]) = queued_tips T q + c"
    using q' by (simp add: queued_tips_def tips_x)
  show r': "remaining (tree st') (Some v) = remaining (tree st) (Some v) - c"
    using vx by (simp add: st' remaining_def tips_old sum_v T_def[symmetric])
  show l': "length (successors (tree st') v) = length (successors (tree st) v) + 1"
    by (simp add: st' succ' T_def)
  show "sim_inv n st' (Some v)"
  proof (rule sim_invI)
    show "graph_ok (tree st')" using ok' by (simp add: st')
    show "acyclic (edge_set (tree st'))"
      using grow_acyclic[OF d(1) d(2) vnode xfresh] by (simp add: st' es')
    show "set (nodes (tree st')) = {1..last_leaf_node st'} \<union> {n + 1..last_internal_node st'}"
      using d(6) by (auto simp: st' nodes' d(3) x_def ll_def)
    show "0 \<le> last_leaf_node st'" "last_leaf_node st' \<le> n" "n + 1 \<le> last_internal_node st'"
      using d(4) d(5) d(6) by (simp_all add: st' ll_def x_def)
    show "distinct (queue st')" "set (queue st') \<subseteq> {n + 1..last_internal_node st'}"
      using d(7) d(8) d(6) xq by (auto simp: st' x_def)
    show "successors (tree st') u = [] \<and> (\<exists>m\<ge>2. label (tree st') u = Some m)"
      if "u \<in> set (queue st')" for u
    proof (cases "u = x")
      case True
      then show ?thesis
        using predecessors_fresh[OF d(1) xfresh] vx c2 by (simp add: st' succ' lab')
    next
      case False
      with that have "u \<in> set q" by (simp add: st')
      with d(9)[of u] cur(2) False show ?thesis by (auto simp: st' succ' lab')
    qed
    show "label (tree st') u = None" if "u \<notin> {n + 1..last_internal_node st'}" for u
      using that d(10)[of u] d(6) by (auto simp: st' lab' x_def)
    show "successors (tree st') u = []" if "u \<in> {1..last_leaf_node st'}" for u
    proof -
      have "u \<noteq> v" using that cur(1) d(5) by (simp add: st' ll_def)
      then show ?thesis using that d(11)[of u] by (simp add: st' succ' ll_def)
    qed
    show "length (successors (tree st') u) = 2 \<and> label (tree st') u = Some (tips_sum (tree st') u)"
      if "u \<in> {n + 1..last_internal_node st'}" "u \<notin> set (queue st')" "Some v \<noteq> Some u" for u
    proof -
      have uv: "u \<noteq> v" using that(3) by simp
      have ux: "u \<noteq> x" using that(2) by (simp add: st')
      with that have "length (successors T u) = 2 \<and> label T u = Some (tips_sum T u)"
        using d(12)[of u] by (simp add: st' x_def)
      then show ?thesis using uv ux sum_other[OF uv] by (simp add: st' succ' lab')
    qed
    show "u \<in> {n + 1..last_internal_node st'} \<and> u \<notin> set (queue st') \<and> label (tree st') u \<noteq> None"
      if "Some v = Some u" for u
      using that cur vx by (auto simp: st' lab' x_def)
    show "predecessors (tree st') (n + 1) = []"
      using d(14) d(6) by (simp add: st' pred' x_def)
    show "length (predecessors (tree st') u) = 1"
      if "u \<in> set (nodes (tree st'))" "u \<noteq> n + 1" for u
    proof (cases "u = x")
      case True
      then show ?thesis using predecessors_fresh[OF d(1) xfresh] by (simp add: st' pred')
    next
      case False
      with that show ?thesis using d(15)[of u] by (simp add: st' pred' nodes')
    qed
    show "last_leaf_node st' + queued_tips (tree st') (queue st') + remaining (tree st') (Some v) = n"
      using d(16) r' q'' by (simp add: st' T_def ll_def)
    show "last_internal_node st' = n - 1 + last_leaf_node st' + 2 * int (length (queue st')) +
        open_slots (tree st') (Some v)"
      using d(17) l' by (simp add: st' open_slots_def x_def T_def ll_def succ')
    show "label (tree st') (n + 1) = Some n" using d(18) d(6) by (simp add: st' lab' x_def)
  qed
qed

lemma sim_inv_rnd [simp]: "sim_inv n (st\<lparr>rnd := r\<rparr>) cur = sim_inv n st cur"
  by (simp add: sim_inv_def)

lemma add_child_inv:
  assumes inv: "sim_inv n st (Some v)" and c1: "1 \<le> c"
    and cr: "c \<le> remaining (tree st) (Some v)"
  shows "\<exists>st'. add_child v st c = Inr st' \<and> sim_inv n st' (Some v) \<and>
      remaining (tree st') (Some v) = remaining (tree st) (Some v) - c \<and>
      length (successors (tree st') v) = length (successors (tree st) v) + 1 \<and>
      2 * (n - last_leaf_node st') - int (length (queue st')) <
        2 * (n - last_leaf_node st) - int (length (queue st)) \<and>
      rnd st' = rnd st"
proof (cases "c = 1")
  case True
  from cr True have r: "1 \<le> remaining (tree st) (Some v)" by simp
  define st' where "st' = st\<lparr>tree := grow (tree st) v (last_leaf_node st + 1),
                      last_leaf_node := last_leaf_node st + 1\<rparr>"
  note l = add_child_leaf[OF inv r, folded st'_def]
  show ?thesis
    unfolding True
    by (intro exI[of _ st'] conjI l) (simp_all add: st'_def)
next
  case False
  with c1 have c2: "2 \<le> c" by simp
  define st' where "st' = st\<lparr>tree := (grow (tree st) v (last_internal_node st + 1))
                        \<lparr>label := (label (tree st))(last_internal_node st + 1 \<mapsto> c)\<rparr>,
                      queue := queue st @ [last_internal_node st + 1],
                      last_internal_node := last_internal_node st + 1\<rparr>"
  note l = add_child_internal[OF inv c2, folded st'_def]
  show ?thesis
    by (intro exI[of _ st'] conjI l) (simp_all add: st'_def)
qed

lemma pop_inv:
  assumes inv: "sim_inv n st None" and ne: "queue st \<noteq> []"
  defines "v \<equiv> last (queue st)"
  defines "st1 \<equiv> st\<lparr>queue := butlast (queue st)\<rparr>"
  shows "sim_inv n st1 (Some v)"
    and "\<exists>m\<ge>2. label (tree st) v = Some m \<and> remaining (tree st1) (Some v) = m"
    and "successors (tree st1) v = []" and "v \<in> set (nodes (tree st))"
proof -
  note d = sim_invD[OF inv]
  define q0 where "q0 = butlast (queue st)"
  have q: "queue st = q0 @ [v]" using ne by (simp add: v_def q0_def)
  have st1: "st1 = st\<lparr>queue := q0\<rparr>" by (simp add: st1_def q0_def)
  have vq: "v \<in> set (queue st)" by (simp add: q)
  have vb: "v \<notin> set q0" using d(7) by (simp add: q)
  have dq0: "distinct q0" using d(7) by (simp add: q)
  have sub: "set q0 \<subseteq> set (queue st)" by (auto simp: q)
  from d(9)[OF vq] obtain m where m: "2 \<le> m" "label (tree st) v = Some m"
    and sv: "successors (tree st) v = []" by auto
  have vin: "v \<in> {n + 1..last_internal_node st}" using d(8) vq by blast
  show "v \<in> set (nodes (tree st))" using vin by (simp add: d(3))
  show sv1: "successors (tree st1) v = []" using sv by (simp add: st1)
  have tv: "tips_of (tree st) v = m" by (simp add: tips_of_def m)
  have rem: "remaining (tree st1) (Some v) = m"
    by (simp add: remaining_def st1 tv tips_sum_def sv)
  with m show "\<exists>m\<ge>2. label (tree st) v = Some m \<and> remaining (tree st1) (Some v) = m" by blast
  have qt: "queued_tips (tree st) (queue st) = queued_tips (tree st) q0 + m"
    by (simp add: q queued_tips_def tv)
  have len: "int (length (queue st)) = int (length q0) + 1"
    by (simp add: q)
  show "sim_inv n st1 (Some v)"
  proof (rule sim_invI)
    show "graph_ok (tree st1)" using d(1) by (simp add: st1)
    show "acyclic (edge_set (tree st1))" using d(2) by (simp add: st1)
    show "set (nodes (tree st1)) = {1..last_leaf_node st1} \<union> {n + 1..last_internal_node st1}"
      using d(3) by (simp add: st1)
    show "0 \<le> last_leaf_node st1" "last_leaf_node st1 \<le> n" "n + 1 \<le> last_internal_node st1"
      using d(4) d(5) d(6) by (simp_all add: st1)
    show "predecessors (tree st1) (n + 1) = []" using d(14) by (simp add: st1)
    show "distinct (queue st1)" using dq0 by (simp add: st1)
    show "set (queue st1) \<subseteq> {n + 1..last_internal_node st1}"
      using d(8) sub by (auto simp: st1)
    show "successors (tree st1) u = [] \<and> (\<exists>m\<ge>2. label (tree st1) u = Some m)"
      if "u \<in> set (queue st1)" for u
    proof -
      from that have "u \<in> set (queue st)" using sub by (auto simp: st1)
      from d(9)[OF this] show ?thesis by (simp add: st1)
    qed
    show "label (tree st1) u = None" if "u \<notin> {n + 1..last_internal_node st1}" for u
      using that d(10)[of u] by (simp add: st1)
    show "successors (tree st1) u = []" if "u \<in> {1..last_leaf_node st1}" for u
      using that d(11)[of u] by (simp add: st1)
    show "length (successors (tree st1) u) = 2 \<and> label (tree st1) u = Some (tips_sum (tree st1) u)"
      if "u \<in> {n + 1..last_internal_node st1}" "u \<notin> set (queue st1)" "Some v \<noteq> Some u" for u
    proof -
      have "u \<notin> set (queue st)" using that(2,3) by (simp add: q st1)
      with that(1) d(12)[of u] show ?thesis by (simp add: st1)
    qed
    show "u \<in> {n + 1..last_internal_node st1} \<and> u \<notin> set (queue st1) \<and> label (tree st1) u \<noteq> None"
      if "Some v = Some u" for u
      using that vin vb m by (auto simp: st1)
    show "length (predecessors (tree st1) u) = 1"
      if "u \<in> set (nodes (tree st1))" "u \<noteq> n + 1" for u
      using that d(15)[of u] by (simp add: st1)
    show "last_leaf_node st1 + queued_tips (tree st1) (queue st1) + remaining (tree st1) (Some v) = n"
      using d(16) qt rem by (simp add: st1 remaining_def)
    show "last_internal_node st1 = n - 1 + last_leaf_node st1 + 2 * int (length (queue st1)) +
        open_slots (tree st1) (Some v)"
      using d(17) len sv by (simp add: st1 open_slots_def)
    show "label (tree st1) (n + 1) = Some n" using d(18) by (simp add: st1)
  qed
qed

lemma close_inv:
  assumes inv: "sim_inv n st (Some v)" and rem: "remaining (tree st) (Some v) = 0"
    and len: "length (successors (tree st) v) = 2"
  shows "sim_inv n st None"
proof -
  note d = sim_invD[OF inv]
  from d(13)[OF refl] obtain m where m: "label (tree st) v = Some m" by auto
  have lv: "label (tree st) v = Some (tips_sum (tree st) v)"
    using rem m by (simp add: remaining_def tips_of_def)
  show ?thesis
  proof (rule sim_invI)
    show "length (successors (tree st) u) = 2 \<and> label (tree st) u = Some (tips_sum (tree st) u)"
      if "u \<in> {n + 1..last_internal_node st}" "u \<notin> set (queue st)" "None \<noteq> Some u" for u
      using that d(12)[of u] len lv by (cases "u = v") simp_all
    show "last_leaf_node st + queued_tips (tree st) (queue st) + remaining (tree st) None = n"
      using d(16) rem by (simp add: remaining_def)
    show "last_internal_node st = n - 1 + last_leaf_node st + 2 * int (length (queue st)) +
        open_slots (tree st) None"
      using d(17) len by (simp add: open_slots_def)
    show "label (tree st) (n + 1) = Some n" by (rule d(18))
    show "graph_ok (tree st)" by (rule d(1))
    show "acyclic (edge_set (tree st))" by (rule d(2))
    show "set (nodes (tree st)) = {1..last_leaf_node st} \<union> {n + 1..last_internal_node st}"
      by (rule d(3))
    show "0 \<le> last_leaf_node st" by (rule d(4))
    show "last_leaf_node st \<le> n" by (rule d(5))
    show "n + 1 \<le> last_internal_node st" by (rule d(6))
    show "distinct (queue st)" by (rule d(7))
    show "set (queue st) \<subseteq> {n + 1..last_internal_node st}" by (rule d(8))
    show "predecessors (tree st) (n + 1) = []" by (rule d(14))
    show "\<And>u. u \<in> set (queue st) \<Longrightarrow>
           successors (tree st) u = [] \<and> (\<exists>m\<ge>2. label (tree st) u = Some m)"
      by (rule d(9))
    show "\<And>u. u \<notin> {n + 1..last_internal_node st} \<Longrightarrow> label (tree st) u = None"
      by (rule d(10))
    show "\<And>u. u \<in> {1..last_leaf_node st} \<Longrightarrow> successors (tree st) u = []"
      by (rule d(11))
    show "\<And>u. None = Some u \<Longrightarrow>
        u \<in> {n + 1..last_internal_node st} \<and> u \<notin> set (queue st) \<and> label (tree st) u \<noteq> None"
      by simp
    show "\<And>u. u \<in> set (nodes (tree st)) \<Longrightarrow> u \<noteq> n + 1 \<Longrightarrow>
        length (predecessors (tree st) u) = 1"
      by (rule d(15))
  qed
qed

lemma sum_list_pos_real:
  fixes xs :: "real list"
  assumes "xs \<noteq> []" "\<And>x. x \<in> set xs \<Longrightarrow> 0 < x"
  shows "0 < sum_list xs"
  using assms
proof (induction xs)
  case Nil
  then show ?case by simp
next
  case (Cons a xs)
  have "0 < a" using Cons.prems(2) by simp
  moreover have "0 \<le> sum_list xs" using Cons.prems(2) by (intro sum_list_nonneg) (simp add: less_imp_le)
  ultimately show ?case by simp
qed

lemma length_computeProb: "length (computeProb lg m beta) = nat (m - 1)"
  by (simp add: computeProb_def)

lemma choose_split:
  assumes "2 \<le> m"
  shows "\<exists>s. random_choices1 [1..m - 1] (computeProb lg m beta) r = Inr (s, next_pick r) \<and>
           1 \<le> s \<and> s \<le> m - 1"
proof -
  have ne: "[1..m - 1] \<noteq> []" using assms by (simp add: upto.simps)
  have len: "length (computeProb lg m beta) = length [1..m - 1]"
    by (simp add: computeProb_def)
  have "computeProb lg m beta \<noteq> []" using ne len by (metis length_0_conv)
  moreover have "0 < x" if "x \<in> set (computeProb lg m beta)" for x
    using that by (auto simp: computeProb_def)
  ultimately have pos: "0 < sum_list (computeProb lg m beta)" by (rule sum_list_pos_real)
  define s where "s = [1..m - 1] ! (picks r 0 mod length [1..m - 1])"
  have "s \<in> set [1..m - 1]" unfolding s_def using ne by (intro nth_mem) simp
  then have "1 \<le> s \<and> s \<le> m - 1" by simp
  moreover have "random_choices1 [1..m - 1] (computeProb lg m beta) r = Inr (s, next_pick r)"
    using ne len pos by (simp add: random_choices1_def s_def not_le)
  ultimately show ?thesis by blast
qed

lemma sim_measure_nonneg:
  assumes "sim_inv n st None"
  shows "0 \<le> sim_measure n st"
proof -
  note d = sim_invD[OF assms]
  have "2 * int (length (queue st)) \<le> queued_tips (tree st) (queue st)"
    using d(9) by (intro queued_tips_ge) blast
  moreover have "n - last_leaf_node st = queued_tips (tree st) (queue st)"
    using d(16) by (simp add: remaining_def)
  ultimately show ?thesis by (simp add: sim_measure_def)
qed

lemma sim_step_inv:
  assumes inv: "sim_inv n st None" and ne: "queue st \<noteq> []"
  shows "\<exists>st'. sim_step lg beta st = Inr st' \<and> sim_inv n st' None \<and>
           sim_measure n st' < sim_measure n st"
proof -
  define v where "v = last (queue st)"
  define st1 where "st1 = st\<lparr>queue := butlast (queue st)\<rparr>"
  note p = pop_inv[OF inv ne, folded v_def st1_def]
  from p(2) obtain m where m: "2 \<le> m" "label (tree st) v = Some m"
    and rem1: "remaining (tree st1) (Some v) = m" by blast
  have gl: "get_label (tree st1) v = Inr (Some m)"
    using p(4) m(2) by (simp add: get_label_def st1_def)
  from choose_split[OF m(1), of lg beta "rnd st1"] obtain s where
    ch: "random_choices1 [1..m - 1] (computeProb lg m beta) (rnd st1) = Inr (s, next_pick (rnd st1))"
    and s: "1 \<le> s" "s \<le> m - 1" by blast
  define st1r where "st1r = st1\<lparr>rnd := next_pick (rnd st1)\<rparr>"
  have inv1: "sim_inv n st1r (Some v)" using p(1) by (simp add: st1r_def)
  have rem1r: "remaining (tree st1r) (Some v) = m" using rem1 by (simp add: st1r_def)
  have len1: "length (successors (tree st1r) v) = 0" using p(3) by (simp add: st1r_def)
  have mu1: "sim_measure n st1r = sim_measure n st + 1"
    using ne by (cases "queue st" rule: rev_cases) (simp_all add: sim_measure_def st1r_def st1_def)
  have "s \<le> remaining (tree st1r) (Some v)" using s(2) rem1r by simp
  from add_child_inv[OF inv1 s(1) this] obtain st2 where
    a2: "add_child v st1r s = Inr st2" and inv2: "sim_inv n st2 (Some v)"
    and rem2: "remaining (tree st2) (Some v) = m - s"
    and len2: "length (successors (tree st2) v) = 1"
    and mu2: "sim_measure n st2 < sim_measure n st1r"
    using rem1r len1 by (auto simp: sim_measure_def)
  have "1 \<le> m - s" "m - s \<le> remaining (tree st2) (Some v)" using s(2) rem2 by simp_all
  from add_child_inv[OF inv2 this] obtain st3 where
    a3: "add_child v st2 (m - s) = Inr st3" and inv3: "sim_inv n st3 (Some v)"
    and rem3: "remaining (tree st3) (Some v) = 0"
    and len3: "length (successors (tree st3) v) = 2"
    and mu3: "sim_measure n st3 < sim_measure n st2"
    using rem2 len2 by (auto simp: sim_measure_def)
  have step: "sim_step lg beta st = Inr st3"
    using m(1) gl ch a2 a3
    by (simp add: sim_step_def Let_def ebind_def v_def[symmetric] st1_def[symmetric]
        st1r_def[symmetric])
  have "sim_inv n st3 None" by (rule close_inv[OF inv3 rem3 len3])
  moreover have "sim_measure n st3 < sim_measure n st" using mu1 mu2 mu3 by simp
  ultimately show ?thesis using step by blast
qed

lemma sim_loop_total:
  assumes "sim_inv n st None"
  shows "\<exists>st'. sim_loop lg beta st = Some (Inr st') \<and> sim_inv n st' None \<and> queue st' = []"
  using assms
proof (induction "nat (sim_measure n st)" arbitrary: st rule: less_induct)
  case less
  show ?case
  proof (cases "queue st = []")
    case True
    then have "sim_loop lg beta st = Some (Inr st)" by (subst sim_loop.simps) simp
    with less.prems True show ?thesis by blast
  next
    case False
    from sim_step_inv[OF less.prems False, of lg beta] obtain st1 where
      st: "sim_step lg beta st = Inr st1" and inv1: "sim_inv n st1 None"
      and mu: "sim_measure n st1 < sim_measure n st" by blast
    have "nat (sim_measure n st1) < nat (sim_measure n st)"
      using mu sim_measure_nonneg[OF inv1] by simp
    from less.hyps[OF this inv1] obtain st' where
      "sim_loop lg beta st1 = Some (Inr st')" "sim_inv n st' None" "queue st' = []" by blast
    moreover have "sim_loop lg beta st = sim_loop lg beta st1"
      using False st by (subst sim_loop.simps) simp
    ultimately show ?thesis by simp
  qed
qed

lemma sim_init_inv:
  assumes "2 \<le> n"
  shows "\<exists>st. sim_init n r = Inr st \<and> sim_inv n st None"
proof -
  define st where "st = \<lparr>tree = \<lparr>nodes = [n + 1], label = (\<lambda>_. None)(n + 1 \<mapsto> n), edges = []\<rparr>,
      last_internal_node = n + 1, last_leaf_node = 0, queue = [n + 1], rnd = r\<rparr>"
  have i: "sim_init n r = Inr st"
    by (simp add: sim_init_def set_label_def add_node_def empty_graph_def ebind_def st_def)
  have "sim_inv n st None"
    using assms
    by (intro sim_invI)
      (auto simp: st_def graph_ok_def edge_set_def successors_def predecessors_def
        queued_tips_def tips_of_def remaining_def open_slots_def acyclic_def)
  with i show ?thesis by (auto simp: st_def)
qed

lemma filter_single:
  assumes "distinct xs" "x \<in> set xs" "P x" "\<forall>y\<in>set xs. P y \<longrightarrow> y = x"
  shows "filter P xs = [x]"
  using assms
proof (induction xs)
  case Nil
  then show ?case by simp
next
  case (Cons a xs)
  show ?case
  proof (cases "a = x")
    case True
    have "x \<notin> set xs" using Cons.prems(1) True by simp
    then have "\<forall>y\<in>set xs. \<not> P y" using Cons.prems(4) by auto
    then have "filter P xs = []" by (simp add: filter_empty_conv)
    then show ?thesis using True Cons.prems(3) by simp
  next
    case False
    have na: "\<not> P a" using Cons.prems(4) False by auto
    have d: "distinct xs" using Cons.prems(1) by simp
    have x: "x \<in> set xs" using Cons.prems(2) False by auto
    have r: "\<forall>y\<in>set xs. P y \<longrightarrow> y = x" using Cons.prems(4) by auto
    from Cons.IH[OF d x Cons.prems(3) r] na show ?thesis by simp
  qed
qed

lemma finished_tree:
  assumes inv: "sim_inv n st None" and q: "queue st = []" and n2: "2 \<le> n"
  shows "graph_ok (tree st)" and "is_dag (tree st)"
    and "set (nodes (tree st)) = {1..2 * n - 1}" and "int (length (nodes (tree st))) = 2 * n - 1"
    and "set (leaves (tree st)) = {1..n}" and "int (length (leaves (tree st))) = n"
    and "roots (tree st) = [n + 1]"
    and "\<And>v. v \<in> set (nodes (tree st)) \<Longrightarrow> v \<notin> set (leaves (tree st)) \<Longrightarrow>
          length (successors (tree st) v) = 2 \<and> label (tree st) v = Some (tips_sum (tree st) v)"
    and "\<And>v. v \<in> set (nodes (tree st)) \<Longrightarrow> v \<noteq> n + 1 \<Longrightarrow>
          length (predecessors (tree st) v) = 1"
    and "label (tree st) (n + 1) = Some n"
proof -
  define T where "T = tree st"
  note d = sim_invD[OF inv, folded T_def]
  have ll: "last_leaf_node st = n" using d(16) q by (simp add: queued_tips_def remaining_def)
  have li: "last_internal_node st = 2 * n - 1" using d(17) q ll by (simp add: open_slots_def)
  show ok: "graph_ok (tree st)" using d(1) by (simp add: T_def)
  show "is_dag (tree st)" using d(2) by (simp add: is_dag_iff T_def)
  have ns: "set (nodes T) = {1..2 * n - 1}" using d(3) n2 by (auto simp: ll li)
  then show "set (nodes (tree st)) = {1..2 * n - 1}" by (simp add: T_def)
  have dn: "distinct (nodes T)" using d(1) by (simp add: graph_ok_def)
  have "card (set (nodes T)) = length (nodes T)" using dn by (rule distinct_card)
  then have "int (length (nodes T)) = 2 * n - 1" using n2 by (simp add: ns)
  then show "int (length (nodes (tree st))) = 2 * n - 1" by (simp add: T_def)
  have inner: "length (successors T v) = 2 \<and> label T v = Some (tips_sum T v)"
    if "v \<in> {n + 1..2 * n - 1}" for v
  proof -
    have "v \<in> {n + 1..last_internal_node st}" using that by (simp add: li)
    moreover have "v \<notin> set (queue st)" by (simp add: q)
    ultimately show ?thesis by (intro d(12)) simp_all
  qed
  have leaf: "successors T v = []" if "v \<in> {1..n}" for v
  proof -
    have "v \<in> {1..last_leaf_node st}" using that by (simp add: ll)
    then show ?thesis by (rule d(11))
  qed
  have ls: "set (leaves T) = {1..n}"
  proof (intro set_eqI iffI)
    fix v assume "v \<in> set (leaves T)"
    then have v: "v \<in> {1..2 * n - 1}" "successors T v = []" by (simp_all add: leaves_def ns)
    show "v \<in> {1..n}"
    proof (rule ccontr)
      assume "v \<notin> {1..n}"
      with v(1) have "v \<in> {n + 1..2 * n - 1}" by auto
      from inner[OF this] v(2) show False by simp
    qed
  next
    fix v assume v: "v \<in> {1..n}"
    then have "v \<in> set (nodes T)" using n2 by (simp add: ns)
    with leaf[OF v] show "v \<in> set (leaves T)" by (simp add: leaves_def)
  qed
  then show "set (leaves (tree st)) = {1..n}" by (simp add: T_def)
  have "distinct (leaves T)" using dn by (simp add: leaves_def)
  then have "card (set (leaves T)) = length (leaves T)" by (rule distinct_card)
  then have "int (length (leaves T)) = n" using n2 by (simp add: ls)
  then show "int (length (leaves (tree st))) = n" by (simp add: T_def)
  have "roots T = [n + 1]"
    unfolding roots_def
  proof (rule filter_single[OF dn])
    show "n + 1 \<in> set (nodes T)" using n2 by (simp add: ns)
    show "predecessors T (n + 1) = []" by (rule d(14))
    show "\<forall>y\<in>set (nodes T). predecessors T y = [] \<longrightarrow> y = n + 1"
    proof (intro ballI impI)
      fix y assume y: "y \<in> set (nodes T)" "predecessors T y = []"
      show "y = n + 1"
      proof (rule ccontr)
        assume "y \<noteq> n + 1"
        from d(15)[OF y(1) this] y(2) show False by simp
      qed
    qed
  qed
  then show "roots (tree st) = [n + 1]" by (simp add: T_def)
  show "length (successors (tree st) v) = 2 \<and> label (tree st) v = Some (tips_sum (tree st) v)"
    if "v \<in> set (nodes (tree st))" "v \<notin> set (leaves (tree st))" for v
  proof -
    from that have "v \<in> {n + 1..2 * n - 1}" using ns ls by (auto simp: T_def)
    from inner[OF this] show ?thesis by (simp add: T_def)
  qed
  show "length (predecessors (tree st) v) = 1" if "v \<in> set (nodes (tree st))" "v \<noteq> n + 1" for v
  proof -
    have "v \<in> set (nodes T)" using that(1) by (simp add: T_def)
    from d(15)[OF this that(2)] show ?thesis by (simp add: T_def)
  qed
  show "label (tree st) (n + 1) = Some n" using d(18) by (simp add: T_def)
qed

lemma simulate_total:
  assumes "2 \<le> n"
  shows "\<exists>st. simulateBetaSplitting lg n beta r = Some (Inr (tree st, rnd st)) \<and>
           sim_inv n st None \<and> queue st = []"
proof -
  from sim_init_inv[OF assms, of r] obtain st0 where
    i: "sim_init n r = Inr st0" and inv0: "sim_inv n st0 None" by blast
  from sim_loop_total[OF inv0, of lg beta] obtain st where
    l: "sim_loop lg beta st0 = Some (Inr st)" and inv: "sim_inv n st None" and q: "queue st = []"
    by blast
  have "simulateBetaSplitting lg n beta r = Some (Inr (tree st, rnd st))"
    by (simp add: simulateBetaSplitting_def i l)
  with inv q show ?thesis by blast
qed



lemma max_list_Max: "xs \<noteq> [] \<Longrightarrow> max_list xs = Max (set xs)"
proof -
  assume "xs \<noteq> []"
  then obtain y ys where xs: "xs = y # ys" by (cases xs) auto
  show ?thesis unfolding xs max_list_def by (simp add: Max.set_eq_fold[symmetric])
qed

lemma insertion_nodes:
  assumes ok: "graph_ok G" and A: "has_edge G a" and B: "has_edge G b"
  shows "\<exists>G' r'. AddEdgeBetween G a b None r = Inr (G', r') \<and>
      nodes G' = nodes G @ [max_list (nodes G) + 1, max_list (nodes G) + 2] \<and>
      max_list (nodes G) + 1 \<notin> set (nodes G) \<and> max_list (nodes G) + 2 \<notin> set (nodes G) \<and>
      distinct (nodes G')"
proof -
  from AddEdgeBetween_shape[OF ok A B, of r] obtain G' r' where
    res: "AddEdgeBetween G a b None r = Inr (G', r')"
    and n: "nodes G' = nodes G @ [max_list (nodes G) + 1, max_list (nodes G) + 2]"
    and k: "map fst (edges G') = spliced_keys G a b" by blast
  have "graph_ok G'" by (rule spliced_ok[OF ok A B n k])
  then have "distinct (nodes G')" by (simp add: graph_ok_def)
  with res n max_list_fresh[of "nodes G"] show ?thesis by blast
qed

lemma one_insertion_nodes:
  assumes ok: "graph_ok G"
    and one: "(case meth of None \<Rightarrow> Some (AddEdgeUniform G None r)
            | Some sp \<Rightarrow> AddEdgeLocal G None sp None None r) = Some (Inr (G1, r1))"
  shows "nodes G1 = nodes G @ [max_list (nodes G) + 1, max_list (nodes G) + 2]"
proof -
  have "\<exists>a b ra. has_edge G a \<and> has_edge G b \<and> AddEdgeBetween G a b None ra = Inr (G1, r1)"
  proof (cases meth)
    case None
    with one have u: "AddEdgeUniform G None r = Inr (G1, r1)" by simp
    then obtain i j r0 where
      c: "np_random_choice2 (length (edge_list G)) r = Inr ((i, j), r0)"
      and ab: "AddEdgeBetween G (edge_list G ! i) (edge_list G ! j) None r0 = Inr (G1, r1)"
      by (auto simp: AddEdgeUniform_def Let_def ebind_def split: sum.splits)
    from AddEdgeUniform_edges[OF c] ab show ?thesis by blast
  next
    case (Some sp)
    with one have "AddEdgeLocal G None sp None None r = Some (Inr (G1, r1))" by simp
    then obtain a b r0 where
      s: "select_local G sp None None 1 None r = Some (Inr (a, b, r0))"
      and ab: "AddEdgeBetween G a b None r0 = Inr (G1, r1)"
      by (auto simp: AddEdgeLocal_def split: option.splits sum.splits)
    from select_local_edges[OF s] ab show ?thesis by blast
  qed
  then obtain a b ra where A: "has_edge G a" and B: "has_edge G b"
    and ab: "AddEdgeBetween G a b None ra = Inr (G1, r1)" by blast
  from insertion_nodes[OF ok A B, of ra] ab show ?thesis by simp
qed

lemma insertions_nodes:
  assumes "insertions k meth G r = Some (Inr (G', r'))" and "graph_ok G"
  shows "\<exists>new. nodes G' = nodes G @ new \<and> length new = 2 * k \<and>
           (\<forall>x\<in>set new. max_list (nodes G) < x)"
  using assms
proof (induction k arbitrary: G r)
  case 0
  then show ?case by simp
next
  case (Suc k)
  from Suc.prems(1) obtain G1 r1 where
    one: "(case meth of None \<Rightarrow> Some (AddEdgeUniform G None r)
            | Some sp \<Rightarrow> AddEdgeLocal G None sp None None r) = Some (Inr (G1, r1))"
    and rest: "insertions k meth G1 r1 = Some (Inr (G', r'))"
    by (auto split: option.splits sum.splits)
  define m where "m = max_list (nodes G)"
  have n1: "nodes G1 = nodes G @ [m + 1, m + 2]"
    unfolding m_def by (rule one_insertion_nodes[OF Suc.prems(2) one])
  have ok1: "graph_ok G1"
  proof (cases meth)
    case None
    with one show ?thesis using AddEdgeUniform_keeps[OF Suc.prems(2)] by auto
  next
    case (Some sp)
    with one show ?thesis using AddEdgeLocal_keeps[OF Suc.prems(2)] by auto
  qed
  from Suc.IH[OF rest ok1] obtain new where new: "nodes G' = nodes G1 @ new"
    "length new = 2 * k" "\<forall>x\<in>set new. max_list (nodes G1) < x" by blast
  have "m + 2 \<le> max_list (nodes G1)" by (rule max_list_ge) (simp add: n1)
  then have big: "\<forall>x\<in>set new. m < x" using new(3) by auto
  have "nodes G' = nodes G @ ([m + 1, m + 2] @ new)" by (simp add: new(1) n1)
  moreover have "length ([m + 1, m + 2] @ new) = 2 * Suc k" by (simp add: new(2))
  moreover have "\<forall>x\<in>set ([m + 1, m + 2] @ new). m < x" using big by simp
  ultimately show ?case unfolding m_def by blast
qed

text \<open>
  C9: an insertion appends the two nodes \<open>max + 1\<close> and \<open>max + 2\<close>, neither of them a node
  before, and the nodes stay distinct. The tree builder numbers the leaves 1 to \<open>n\<close> and the
  other nodes \<open>n + 1\<close> to \<open>2 * n - 1\<close>, all distinct, so the largest is \<open>2 * n - 1\<close>; after
  \<open>k\<close> insertions the nodes are those of the tree, in their order, followed by \<open>2 * k\<close> new
  ones, each larger than \<open>2 * n - 1\<close>, and all are distinct.
\<close>

theorem node_identifiers_fresh:
  "(graph_ok G \<and> has_edge G a \<and> has_edge G b \<longrightarrow>
      (\<exists>G' r'. AddEdgeBetween G a b None r = Inr (G', r') \<and>
         nodes G' = nodes G @ [max_list (nodes G) + 1, max_list (nodes G) + 2] \<and>
         max_list (nodes G) + 1 \<notin> set (nodes G) \<and> max_list (nodes G) + 2 \<notin> set (nodes G) \<and>
         distinct (nodes G'))) \<and>
   (2 \<le> n \<longrightarrow>
      (\<exists>T r1. simulateBetaSplitting lg n beta rs = Some (Inr (T, r1)) \<and>
         distinct (nodes T) \<and> set (leaves T) = {1..n} \<and>
         set (nodes T) - set (leaves T) = {n + 1..2 * n - 1} \<and>
         max_list (nodes T) = 2 * n - 1 \<and>
         (\<forall>G' r2. GenerateNetwork T k meth r1 = Some (Inr (G', r2)) \<longrightarrow>
            distinct (nodes G') \<and>
            (\<exists>new. nodes G' = nodes T @ new \<and> length new = 2 * nat k \<and>
               (\<forall>x\<in>set new. 2 * n - 1 < x)))))"
proof (intro conjI impI)
  assume "graph_ok G \<and> has_edge G a \<and> has_edge G b"
  then show "\<exists>G' r'. AddEdgeBetween G a b None r = Inr (G', r') \<and>
         nodes G' = nodes G @ [max_list (nodes G) + 1, max_list (nodes G) + 2] \<and>
         max_list (nodes G) + 1 \<notin> set (nodes G) \<and> max_list (nodes G) + 2 \<notin> set (nodes G) \<and>
         distinct (nodes G')"
    using insertion_nodes by blast
next
  assume n2: "2 \<le> n"
  from simulate_total[OF n2, of lg beta rs] obtain st where
    s: "simulateBetaSplitting lg n beta rs = Some (Inr (tree st, rnd st))"
    and inv: "sim_inv n st None" and q: "queue st = []" by blast
  define T where "T = tree st"
  note f = finished_tree[OF inv q n2, folded T_def]
  have dn: "distinct (nodes T)" using f(1) by (simp add: graph_ok_def)
  have inner: "set (nodes T) - set (leaves T) = {n + 1..2 * n - 1}"
    unfolding f(3) f(5) using n2 by auto
  have ne: "nodes T \<noteq> []" using f(3) n2 by auto
  have "Max {1..2 * n - 1} = 2 * n - 1" using n2 by (intro Max_eqI) auto
  then have mx: "max_list (nodes T) = 2 * n - 1" by (simp add: max_list_Max[OF ne] f(3))
  have run: "distinct (nodes G') \<and>
            (\<exists>new. nodes G' = nodes T @ new \<and> length new = 2 * nat k \<and>
               (\<forall>x\<in>set new. 2 * n - 1 < x))"
    if g: "GenerateNetwork T k meth r1 = Some (Inr (G', r2))" for G' r2 r1
  proof -
    from g have i: "insertions (nat k) meth T r1 = Some (Inr (G', r2))"
      by (simp add: GenerateNetwork_def)
    from insertions_keep[OF i f(1)] have "distinct (nodes G')" by (simp add: graph_ok_def)
    with insertions_nodes[OF i f(1)] show ?thesis by (simp add: mx)
  qed
  show "\<exists>T r1. simulateBetaSplitting lg n beta rs = Some (Inr (T, r1)) \<and>
         distinct (nodes T) \<and> set (leaves T) = {1..n} \<and>
         set (nodes T) - set (leaves T) = {n + 1..2 * n - 1} \<and>
         max_list (nodes T) = 2 * n - 1 \<and>
         (\<forall>G' r2. GenerateNetwork T k meth r1 = Some (Inr (G', r2)) \<longrightarrow>
            distinct (nodes G') \<and>
            (\<exists>new. nodes G' = nodes T @ new \<and> length new = 2 * nat k \<and>
               (\<forall>x\<in>set new. 2 * n - 1 < x)))"
    using s dn f(5) inner mx run unfolding T_def by (intro exI[of _ "tree st"] exI[of _ "rnd st"]) blast
qed

theorem node_identifiers_fresh_witness:
  "graph_ok two_tip_tree \<and> has_edge two_tip_tree (3, 1) \<and> has_edge two_tip_tree (3, 2) \<and>
   (\<exists>G' r'. AddEdgeBetween two_tip_tree (3, 1) (3, 2) None zero_rng = Inr (G', r') \<and>
      nodes G' = [3, 1, 2, 4, 5] \<and> distinct (nodes G')) \<and>
   (2::int) \<le> 2 \<and>
   (\<exists>T r1 G' r2. simulateBetaSplitting (\<lambda>_. 0) 2 0 zero_rng = Some (Inr (T, r1)) \<and>
      max_list (nodes T) = 3 \<and> GenerateNetwork T 1 None r1 = Some (Inr (G', r2)) \<and>
      distinct (nodes G') \<and> length (nodes G') = 5)"
proof -
  note t = node_identifiers_fresh[where G = two_tip_tree and a = "(3, 1)" and b = "(3, 2)"
      and r = zero_rng and n = 2 and lg = "\<lambda>_. 0" and beta = 0 and rs = zero_rng and k = 1
      and meth = None]
  have h: "(2::int) \<le> 2" by simp
  from t two_tip_tree_ok two_tip_tree_edges obtain G1 r1 where
    a1: "AddEdgeBetween two_tip_tree (3, 1) (3, 2) None zero_rng = Inr (G1, r1)"
    and a2: "nodes G1 = nodes two_tip_tree @
        [max_list (nodes two_tip_tree) + 1, max_list (nodes two_tip_tree) + 2]"
    and a3: "distinct (nodes G1)" by blast
  have a4: "nodes G1 = [3, 1, 2, 4, 5]" using a2 by (simp add: two_tip_tree_def max_list_def)
  have p1: "\<exists>G' r'. AddEdgeBetween two_tip_tree (3, 1) (3, 2) None zero_rng = Inr (G', r') \<and>
      nodes G' = [3, 1, 2, 4, 5] \<and> distinct (nodes G')"
    by (intro exI[of _ G1] exI[of _ r1] conjI a1 a4 a3)
  from t h obtain T rt where
    b1: "simulateBetaSplitting (\<lambda>_. 0) 2 0 zero_rng = Some (Inr (T, rt))"
    and b2: "max_list (nodes T) = 2 * 2 - 1"
    and b3: "\<forall>G' r2. GenerateNetwork T 1 None rt = Some (Inr (G', r2)) \<longrightarrow>
            distinct (nodes G') \<and>
            (\<exists>new. nodes G' = nodes T @ new \<and> length new = 2 * nat 1 \<and>
               (\<forall>x\<in>set new. 2 * 2 - 1 < x))"
    by blast
  have T: "T = two_tip_tree" using b1 sim2[of "\<lambda>_. 0" 0 zero_rng] by (simp add: two_tip_tree_def)
  from insertions_uniform_total[OF two_tip_tree_ok, of 1 rt] obtain G2 r2 where
    g: "GenerateNetwork T 1 None rt = Some (Inr (G2, r2))"
    by (auto simp: GenerateNetwork_def T two_tip_tree_def)
  from b3 g obtain new where c1: "distinct (nodes G2)" and c2: "nodes G2 = nodes T @ new"
    and c3: "length new = 2 * nat 1" by blast
  have c4: "length (nodes G2) = 5" using c2 c3 by (simp add: T two_tip_tree_def)
  have b2': "max_list (nodes T) = 3" using b2 by simp
  have p2: "\<exists>T r1 G' r2. simulateBetaSplitting (\<lambda>_. 0) 2 0 zero_rng = Some (Inr (T, r1)) \<and>
      max_list (nodes T) = 3 \<and> GenerateNetwork T 1 None r1 = Some (Inr (G', r2)) \<and>
      distinct (nodes G') \<and> length (nodes G') = 5"
    by (intro exI[of _ T] exI[of _ rt] exI[of _ G2] exI[of _ r2] conjI b1 b2' g c1 c4)
  show ?thesis by (intro conjI two_tip_tree_ok two_tip_tree_edges p1 h p2)
qed

end
